theory Spec2Isabelle
  imports Complex_Main "HOL-Library.Multiset"
begin

section \<open>Data model\<close>

text \<open>
  The program (\<^verbatim>\<open>src/main.cpp\<close>) is one \<^verbatim>\<open>main\<close> function and the helper
  \<^verbatim>\<open>doubleEquals\<close>. Every number it handles is a C++ \<^verbatim>\<open>double\<close>. The definitions
  of the first sections compute with exact reals: they are the algorithm without
  rounding, and agree with the program wherever its arithmetic is exact. The last sections
  give the same numeric steps with every operation rounded to binary64, which is what the
  program computes. Infinities and NaN are outside both.
  Each \<^verbatim>\<open>std::vector<std::vector<double>>\<close> is a list of rows; a row is modelled by
  its documented layout:
  \<^item> \<^verbatim>\<open>locations\<close>, \<^verbatim>\<open>uncovered\<close>, \<^verbatim>\<open>nontransmitting\<close>: rows \<open>x, y\<close>, a pair;
  \<^item> \<^verbatim>\<open>transmitting\<close>, \<^verbatim>\<open>transmissionPath\<close>: rows \<open>x, y, power\<close>;
  \<^item> \<^verbatim>\<open>minPowersForAllNodes\<close>: rows \<open>minPower, xSource, ySource, xUncovered, yUncovered\<close>.
\<close>

type_synonym point = "real \<times> real"

record tnode =
  tx :: real
  ty :: real
  power :: real

record candidate =
  minPower :: real
  xSource :: real
  ySource :: real
  xUncovered :: real
  yUncovered :: real

record bip_state =
  transmitting :: "tnode list"
  nontransmitting :: "point list"
  uncovered :: "point list"
  transmissionPath :: "tnode list"
  round :: nat

text \<open>
  What the C++ leaves undefined or throws: an index past the end of a vector
  (\<open>OutOfBounds\<close>) and the exception of \<^verbatim>\<open>std::stod\<close> on text that is not a number
  (\<open>InvalidArgument\<close>), which nothing catches.
\<close>

datatype error = OutOfBounds | InvalidArgument

section \<open>doubleEquals\<close>

definition default_epsilon :: real where
  "default_epsilon = 1 / 10000"

definition doubleEquals :: "real \<Rightarrow> real \<Rightarrow> real \<Rightarrow> bool" where
  "doubleEquals x1 x2 epsilon = (\<bar>x1 - x2\<bar> < epsilon)"

section \<open>Input loader (lines 47-61)\<close>

text \<open>
  \<^verbatim>\<open>std::string::find\<close> of a comma: the index of the first one, or \<^verbatim>\<open>npos\<close>
  (\<open>None\<close>).
\<close>

fun find_comma :: "string \<Rightarrow> nat option" where
  "find_comma [] = None"
| "find_comma (c # cs) =
     (if c = CHR '','' then Some 0
      else (case find_comma cs of None \<Rightarrow> None | Some k \<Rightarrow> Some (Suc k)))"

text \<open>
  \<^verbatim>\<open>line.substr(1, line.size() - 2)\<close> on a non-empty line: the count is a
  \<^verbatim>\<open>size_t\<close>, so on a one-character line it wraps to \<open>2^64 - 1\<close> and the result is
  the (empty) rest of the line.
\<close>

definition strip_parens :: "string \<Rightarrow> string" where
  "strip_parens line = take ((length line + 2 ^ 64 - 2) mod 2 ^ 64) (drop 1 line)"

text \<open>
  \<^verbatim>\<open>line.substr(0, line.find(","))\<close> and \<^verbatim>\<open>line.substr(line.find(",") + 1)\<close>: with
  no comma the first is the whole text and, \<^verbatim>\<open>npos + 1\<close> wrapping to 0, so is the second.
\<close>

definition before_comma :: "string \<Rightarrow> string" where
  "before_comma l = (case find_comma l of None \<Rightarrow> l | Some k \<Rightarrow> take k l)"

definition after_comma :: "string \<Rightarrow> string" where
  "after_comma l = (case find_comma l of None \<Rightarrow> l | Some k \<Rightarrow> drop (Suc k) l)"

text \<open>
  \<^verbatim>\<open>std::stod\<close> is a parameter: \<open>None\<close> when it throws.
\<close>

definition parse_line :: "(string \<Rightarrow> real option) \<Rightarrow> string \<Rightarrow> error + point" where
  "parse_line stod line =
     (let l = strip_parens line in
      case stod (before_comma l) of
        None \<Rightarrow> Inl InvalidArgument
      | Some i \<Rightarrow>
          (case stod (after_comma l) of
             None \<Rightarrow> Inl InvalidArgument
           | Some j \<Rightarrow> Inr (i, j)))"

fun read_lines :: "(string \<Rightarrow> real option) \<Rightarrow> string list \<Rightarrow> point list \<Rightarrow> error + point list" where
  "read_lines stod [] locations = Inr locations"
| "read_lines stod (line # rest) locations =
     (if line \<noteq> [] then
        (case parse_line stod line of
           Inl e \<Rightarrow> Inl e
         | Inr p \<Rightarrow> read_lines stod rest (locations @ [p]))
      else read_lines stod rest locations)"

text \<open>
  The file is \<open>None\<close> when \<^verbatim>\<open>file.is_open()\<close> is false, otherwise the lines that
  \<^verbatim>\<open>std::getline\<close> yields.
\<close>

definition load_locations :: "(string \<Rightarrow> real option) \<Rightarrow> string list option \<Rightarrow> error + point list" where
  "load_locations stod file =
     (case file of None \<Rightarrow> Inr [] | Some ls \<Rightarrow> read_lines stod ls [])"

section \<open>Initial state (lines 68-74)\<close>

definition init_state :: "point list \<Rightarrow> error + bip_state" where
  "init_state locations =
     (if 0 < length locations then
        Inr \<lparr>transmitting = [\<lparr>tx = fst (locations ! 0), ty = snd (locations ! 0), power = 0\<rparr>],
             nontransmitting = [],
             uncovered = map (\<lambda>i. (fst (locations ! i), snd (locations ! i))) [1 ..< length locations],
             transmissionPath = [],
             round = 0\<rparr>
      else Inl OutOfBounds)"

section \<open>One round of the main loop (lines 78-175)\<close>

text \<open>Lines 99-114: every transmitting node against every uncovered node.\<close>

definition candidates_transmitting :: "tnode list \<Rightarrow> point list \<Rightarrow> candidate list" where
  "candidates_transmitting transm unc =
     concat (map (\<lambda>t. map (\<lambda>u.
        \<lparr>minPower = ((tx t - fst u)\<^sup>2 + (ty t - snd u)\<^sup>2) - power t,
         xSource = tx t, ySource = ty t, xUncovered = fst u, yUncovered = snd u\<rparr>) unc) transm)"

text \<open>Lines 118-127: every covered non-transmitting node against every uncovered node.\<close>

definition candidates_nontransmitting :: "point list \<Rightarrow> point list \<Rightarrow> candidate list" where
  "candidates_nontransmitting nontrans unc =
     concat (map (\<lambda>n. map (\<lambda>u.
        \<lparr>minPower = (fst n - fst u)\<^sup>2 + (snd n - snd u)\<^sup>2,
         xSource = fst n, ySource = snd n, xUncovered = fst u, yUncovered = snd u\<rparr>) unc) nontrans)"

text \<open>
  \<^verbatim>\<open>std::min_element\<close> followed by \<^verbatim>\<open>std::distance\<close>: the scan keeps the position of
  the smallest value seen and replaces it only by a strictly smaller one; on an empty
  range it returns the end, at distance 0.
\<close>

fun min_element_scan :: "real list \<Rightarrow> nat \<Rightarrow> nat \<Rightarrow> real \<Rightarrow> nat" where
  "min_element_scan [] i smallest v = smallest"
| "min_element_scan (a # as) i smallest v =
     (if a < v then min_element_scan as (Suc i) i a
      else min_element_scan as (Suc i) smallest v)"

definition min_element :: "real list \<Rightarrow> nat" where
  "min_element temp = (case temp of [] \<Rightarrow> 0 | a # as \<Rightarrow> min_element_scan as 1 0 a)"

text \<open>Lines 146-151: the winning cost is added to every transmitting row that matches.\<close>

definition update_transmitting :: "tnode list \<Rightarrow> candidate \<Rightarrow> tnode list" where
  "update_transmitting transm w =
     map (\<lambda>t. if doubleEquals (tx t) (xSource w) default_epsilon
                 \<and> doubleEquals (ty t) (ySource w) default_epsilon
               then t\<lparr>power := power t + minPower w\<rparr> else t) transm"

text \<open>\<^verbatim>\<open>v.erase(v.begin() + i)\<close>\<close>

definition erase :: "'a list \<Rightarrow> nat \<Rightarrow> 'a list" where
  "erase v i = take i v @ drop (Suc i) v"

text \<open>
  Lines 155-162: the loop erases at index \<open>i\<close> and then still increments \<open>i\<close>, and
  it reads the size of the vector again at every test.
\<close>

function promote_loop :: "nat \<Rightarrow> point list \<Rightarrow> tnode list \<Rightarrow> candidate \<Rightarrow> point list \<times> tnode list" where
  "promote_loop i nontrans transm w =
     (if i < length nontrans then
        (if doubleEquals (fst (nontrans ! i)) (xSource w) default_epsilon
            \<and> doubleEquals (snd (nontrans ! i)) (ySource w) default_epsilon
         then promote_loop (i + 1) (erase nontrans i)
                (transm @ [\<lparr>tx = xSource w, ty = ySource w, power = minPower w\<rparr>]) w
         else promote_loop (i + 1) nontrans transm w)
      else (nontrans, transm))"
  by pat_completeness auto
termination
  by (relation "measure (\<lambda>(i, nontrans, transm, w). length nontrans - i)")
     (auto simp: erase_def)

text \<open>Lines 169-173, with the same loop shape.\<close>

function remove_uncovered :: "nat \<Rightarrow> point list \<Rightarrow> candidate \<Rightarrow> point list" where
  "remove_uncovered i unc w =
     (if i < length unc then
        (if doubleEquals (fst (unc ! i)) (xUncovered w) default_epsilon
            \<and> doubleEquals (snd (unc ! i)) (yUncovered w) default_epsilon
         then remove_uncovered (i + 1) (erase unc i) w
         else remove_uncovered (i + 1) unc w)
      else unc)"
  by pat_completeness auto
termination
  by (relation "measure (\<lambda>(i, unc, w). length unc - i)") (auto simp: erase_def)

definition all_candidates :: "bip_state \<Rightarrow> candidate list" where
  "all_candidates s =
     candidates_transmitting (transmitting s) (uncovered s)
     @ candidates_nontransmitting (nontransmitting s) (uncovered s)"

text \<open>
  The body of the \<^verbatim>\<open>while\<close> loop up to line 175. Reading
  \<^verbatim>\<open>minPowersForAllNodes[indexMin]\<close> when the vector is empty is the \<open>OutOfBounds\<close>
  branch.
\<close>

definition round_body :: "bip_state \<Rightarrow> error + bip_state" where
  "round_body s =
     (let minPowersForAllNodes = all_candidates s;
          temp = map minPower minPowersForAllNodes;
          indexMin = min_element temp
      in if indexMin < length minPowersForAllNodes then
           (let w = minPowersForAllNodes ! indexMin;
                path = transmissionPath s @ [\<lparr>tx = xSource w, ty = ySource w, power = minPower w\<rparr>];
                trans1 = update_transmitting (transmitting s) w;
                (nontrans2, trans2) = promote_loop 0 (nontransmitting s) trans1 w;
                nontrans3 = nontrans2 @ [(xUncovered w, yUncovered w)];
                unc = remove_uncovered 0 (uncovered s) w
            in Inr \<lparr>transmitting = trans2, nontransmitting = nontrans3, uncovered = unc,
                    transmissionPath = path, round = round s + 1\<rparr>)
         else Inl OutOfBounds)"

declare promote_loop.simps [simp del] remove_uncovered.simps [simp del]

section \<open>The removal loops without indices\<close>

text \<open>
  What a loop of the shape \<^verbatim>\<open>for (i = 0; i < v.size(); ++i) if (P(v[i])) v.erase(v.begin() + i);\<close>
  leaves of the part of the vector it has not yet visited: after an erase the next element
  slides into position \<open>i\<close> and the increment steps over it.
\<close>

fun skip_erase :: "('a \<Rightarrow> bool) \<Rightarrow> 'a list \<Rightarrow> 'a list" where
  "skip_erase P [] = []"
| "skip_erase P [x] = (if P x then [] else [x])"
| "skip_erase P (x # y # ys) =
     (if P x then y # skip_erase P ys else x # skip_erase P (y # ys))"

text \<open>The test of lines 147-148, 156-157 and 170-171 on a row \<open>p\<close>.\<close>

definition matches :: "real \<Rightarrow> real \<Rightarrow> point \<Rightarrow> bool" where
  "matches x y = (\<lambda>p. doubleEquals (fst p) x default_epsilon \<and> doubleEquals (snd p) y default_epsilon)"

lemma skip_erase_no: "\<not> P x \<Longrightarrow> skip_erase P (x # xs) = x # skip_erase P xs"
  by (cases xs) auto

lemma skip_erase_yes: "P x \<Longrightarrow> skip_erase P (x # xs) = take 1 xs @ skip_erase P (drop 1 xs)"
  by (cases xs) auto

lemma erase_drop: "i < length v \<Longrightarrow> drop (Suc i) (erase v i) = drop (Suc (Suc i)) v"
  by (simp add: erase_def min_def)

lemma erase_take: "i < length v \<Longrightarrow> take (Suc i) (erase v i) = take i v @ take 1 (drop (Suc i) v)"
  by (simp add: erase_def min_def)

lemma remove_uncovered_skip:
  "remove_uncovered i unc w =
     take i unc @ skip_erase (matches (xUncovered w) (yUncovered w)) (drop i unc)"
proof (induction i unc w rule: remove_uncovered.induct)
  case (1 i unc w)
  let ?P = "matches (xUncovered w) (yUncovered w)"
  show ?case
  proof (cases "i < length unc")
    case False
    then show ?thesis by (subst remove_uncovered.simps) simp
  next
    case True
    then obtain x rest where d: "drop i unc = x # rest" and x: "x = unc ! i"
      by (metis Cons_nth_drop_Suc)
    have rest: "rest = drop (Suc i) unc"
      using d by (metis drop_Suc tl_drop list.sel(3))
    show ?thesis
    proof (cases "?P (unc ! i)")
      case m: True
      have "remove_uncovered i unc w = remove_uncovered (i + 1) (erase unc i) w"
        using True m by (subst remove_uncovered.simps) (simp add: matches_def)
      also have "\<dots> = take (Suc i) (erase unc i) @ skip_erase ?P (drop (Suc i) (erase unc i))"
        using 1(1)[OF True] m by (simp add: matches_def)
      also have "\<dots> = take i unc @ take 1 rest @ skip_erase ?P (drop 1 rest)"
        using True by (simp add: erase_drop erase_take rest)
      also have "take 1 rest @ skip_erase ?P (drop 1 rest) = skip_erase ?P (x # rest)"
        using m x by (simp add: skip_erase_yes)
      finally show ?thesis using d by simp
    next
      case m: False
      have "remove_uncovered i unc w = remove_uncovered (i + 1) unc w"
        using True m by (subst remove_uncovered.simps) (auto simp: matches_def)
      also have "\<dots> = take (Suc i) unc @ skip_erase ?P (drop (Suc i) unc)"
        using 1(2)[OF True] m by (auto simp: matches_def)
      also have "\<dots> = take i unc @ skip_erase ?P (x # rest)"
        using m x True rest by (simp add: take_Suc_conv_app_nth skip_erase_no)
      finally show ?thesis using d by simp
    qed
  qed
qed

lemma length_skip_erase_le: "length (skip_erase P xs) \<le> length xs"
  by (induction P xs rule: skip_erase.induct) auto

lemma length_skip_erase_less: "\<exists>x\<in>set xs. P x \<Longrightarrow> length (skip_erase P xs) < length xs"
proof (induction P xs rule: skip_erase.induct)
  case (3 P x y ys)
  then show ?case
    using length_skip_erase_le[of P ys] by (auto simp: less_Suc_eq_le)
qed auto

section \<open>Every round covers at least one node\<close>

lemma matches_self: "matches (fst p) (snd p) p"
  by (simp add: matches_def doubleEquals_def default_epsilon_def)

lemma candidates_transmitting_target:
  "c \<in> set (candidates_transmitting transm unc) \<Longrightarrow> (xUncovered c, yUncovered c) \<in> set unc"
  by (auto simp: candidates_transmitting_def)

lemma candidates_nontransmitting_target:
  "c \<in> set (candidates_nontransmitting nontrans unc) \<Longrightarrow> (xUncovered c, yUncovered c) \<in> set unc"
  by (auto simp: candidates_nontransmitting_def)

lemma all_candidates_target:
  "c \<in> set (all_candidates s) \<Longrightarrow> (xUncovered c, yUncovered c) \<in> set (uncovered s)"
  by (auto simp: all_candidates_def
      dest: candidates_transmitting_target candidates_nontransmitting_target)

lemma remove_uncovered_less:
  assumes "(xUncovered w, yUncovered w) \<in> set unc"
  shows "length (remove_uncovered 0 unc w) < length unc"
proof -
  have "matches (xUncovered w) (yUncovered w) (xUncovered w, yUncovered w)"
    using matches_self[of "(xUncovered w, yUncovered w)"] by simp
  with assms have "\<exists>p\<in>set unc. matches (xUncovered w) (yUncovered w) p" by blast
  then show ?thesis
    by (simp add: remove_uncovered_skip length_skip_erase_less)
qed

lemma round_body_uncovered_less:
  assumes "round_body s = Inr s'"
  shows "length (uncovered s') < length (uncovered s)"
proof -
  let ?cs = "all_candidates s"
  let ?k = "min_element (map minPower ?cs)"
  from assms have k: "?k < length ?cs"
    by (auto simp: round_body_def Let_def split: if_splits)
  then have "?cs ! ?k \<in> set ?cs" by simp
  then have t: "(xUncovered (?cs ! ?k), yUncovered (?cs ! ?k)) \<in> set (uncovered s)"
    by (rule all_candidates_target)
  from assms k have "uncovered s' = remove_uncovered 0 (uncovered s) (?cs ! ?k)"
    by (auto simp: round_body_def Let_def split: if_splits prod.splits)
  with remove_uncovered_less[OF t] show ?thesis by simp
qed

section \<open>The main loop and the program (lines 26-214)\<close>

text \<open>
  Standard output is a list of lines (each one ended by \<^verbatim>\<open>std::endl\<close>). How the
  stream writes a \<^verbatim>\<open>double\<close> and an \<^verbatim>\<open>int\<close> is taken as the parameters \<open>shd\<close> and
  \<open>shi\<close>.
\<close>

text \<open>Lines 178-187.\<close>

definition round_report :: "(real \<Rightarrow> string) \<Rightarrow> (int \<Rightarrow> string) \<Rightarrow> bip_state \<Rightarrow> string list" where
  "round_report shd shi s =
     [''At the end of round '' @ shi (int (round s)) @ '':'']
     @ map (\<lambda>t. ''Transmitting node: '' @ ''Node ('' @ shd (tx t) @ '','' @ shd (ty t) @ '')''
                 @ '', with a power of: '' @ shd (power t)) (transmitting s)
     @ map (\<lambda>u. ''Uncovered node: '' @ shd (fst u) @ '', '' @ shd (snd u)) (uncovered s)"

text \<open>The \<^verbatim>\<open>while\<close> loop of lines 77-190.\<close>

function bip_loop ::
  "(real \<Rightarrow> string) \<Rightarrow> (int \<Rightarrow> string) \<Rightarrow> bip_state \<Rightarrow> string list
     \<Rightarrow> error + bip_state \<times> string list" where
  "bip_loop shd shi s out =
     (if 0 < length (uncovered s) then
        (case round_body s of
           Inl e \<Rightarrow> Inl e
         | Inr s' \<Rightarrow> bip_loop shd shi s' (out @ round_report shd shi s'))
      else Inr (s, out))"
  by pat_completeness auto
termination
  by (relation "measure (\<lambda>(shd, shi, s, out). length (uncovered s))")
     (auto dest: round_body_uncovered_less)

declare bip_loop.simps [simp del]

text \<open>Lines 195-201: the sum is accumulated from 0 in the order of the rows.\<close>

definition totalBroadcastCost :: "bip_state \<Rightarrow> real" where
  "totalBroadcastCost s = foldl (\<lambda>acc t. acc + power t) 0 (transmitting s)"

text \<open>Lines 192-211.\<close>

definition final_report :: "(real \<Rightarrow> string) \<Rightarrow> (int \<Rightarrow> string) \<Rightarrow> bip_state \<Rightarrow> string list" where
  "final_report shd shi s =
     [''======================== Final Results ========================'',
      ''Transmitting nodes (at the end): '']
     @ map (\<lambda>t. ''Node ('' @ shd (tx t) @ '', '' @ shd (ty t) @ '')''
                 @ '', transmitting with a power of: '' @ shd (power t)) (transmitting s)
     @ [''Transmission path: '']
     @ map (\<lambda>i. ''Stage'' @ shi (int i + 1) @ '': Node '' @ ''('' @ shd (tx (transmissionPath s ! i)) @ '', ''
                 @ shd (ty (transmissionPath s ! i)) @ '')'' @ '', increases its power by: ''
                 @ shd (power (transmissionPath s ! i))) [0 ..< length (transmissionPath s)]
     @ [''Total transmission cost is: '' @ shd (totalBroadcastCost s)]"

text \<open>
  \<^verbatim>\<open>main\<close>: \<open>argv\<close> is the argument vector (\<^verbatim>\<open>argc\<close> is its length) and \<open>fs\<close>
  gives for a path the lines of the file, or \<open>None\<close> when it cannot be opened. The
  result is the lines written to standard output and the value returned.
\<close>

definition main ::
  "(string \<Rightarrow> real option) \<Rightarrow> (real \<Rightarrow> string) \<Rightarrow> (int \<Rightarrow> string)
     \<Rightarrow> (string \<Rightarrow> string list option) \<Rightarrow> string list \<Rightarrow> error + string list \<times> int" where
  "main stod shd shi fs argv =
     (if int (length argv) \<noteq> 2 then
        Inr ([''Run the command: ./a.out locations.txt''], - 1)
      else
        (case load_locations stod (fs (argv ! 1)) of
           Inl e \<Rightarrow> Inl e
         | Inr locations \<Rightarrow>
             (case init_state locations of
                Inl e \<Rightarrow> Inl e
              | Inr s0 \<Rightarrow>
                  (case bip_loop shd shi s0 [] of
                     Inl e \<Rightarrow> Inl e
                   | Inr (s, out) \<Rightarrow> Inr (out @ final_report shd shi s, 0)))))"

text \<open>The algorithm alone: the state the loop ends in, for a list of locations.\<close>

definition run_bip :: "point list \<Rightarrow> error + bip_state" where
  "run_bip locations =
     (case init_state locations of
        Inl e \<Rightarrow> Inl e
      | Inr s0 \<Rightarrow>
          (case bip_loop (\<lambda>_. []) (\<lambda>_. []) s0 [] of
             Inl e \<Rightarrow> Inl e
           | Inr (s, out) \<Rightarrow> Inr s))"

section \<open>Selection of the minimum and enumeration of the candidates\<close>

lemma min_element_scan_correct:
  assumes "ys = pre @ as" "smallest < length pre" "v = ys ! smallest"
    "\<forall>j<length pre. v \<le> ys ! j" "\<forall>j<smallest. v < ys ! j"
  shows "min_element_scan as (length pre) smallest v < length ys
       \<and> (\<forall>j<length ys. ys ! min_element_scan as (length pre) smallest v \<le> ys ! j)
       \<and> (\<forall>j<min_element_scan as (length pre) smallest v. ys ! min_element_scan as (length pre) smallest v < ys ! j)"
  using assms
proof (induction as arbitrary: pre smallest v)
  case Nil
  then show ?case by auto
next
  case (Cons a as)
  have ys: "ys = (pre @ [a]) @ as" and a: "ys ! length pre = a"
    using Cons.prems(1) by auto
  have len: "length (pre @ [a]) = Suc (length pre)" by simp
  show ?case
  proof (cases "a < v")
    case True
    have "min_element_scan as (length (pre @ [a])) (length pre) a < length ys
       \<and> (\<forall>j<length ys. ys ! min_element_scan as (length (pre @ [a])) (length pre) a \<le> ys ! j)
       \<and> (\<forall>j<min_element_scan as (length (pre @ [a])) (length pre) a. ys ! min_element_scan as (length (pre @ [a])) (length pre) a < ys ! j)"
    proof (rule Cons.IH[OF ys])
      show "length pre < length (pre @ [a])" by simp
      show "a = ys ! length pre" using a by simp
      show "\<forall>j<length (pre @ [a]). a \<le> ys ! j"
        using Cons.prems(4) True a by (auto simp: less_Suc_eq)
      show "\<forall>j<length pre. a < ys ! j"
        using Cons.prems(4) True by fastforce
    qed
    then show ?thesis using True by simp
  next
    case False
    have "min_element_scan as (length (pre @ [a])) smallest v < length ys
       \<and> (\<forall>j<length ys. ys ! min_element_scan as (length (pre @ [a])) smallest v \<le> ys ! j)
       \<and> (\<forall>j<min_element_scan as (length (pre @ [a])) smallest v. ys ! min_element_scan as (length (pre @ [a])) smallest v < ys ! j)"
    proof (rule Cons.IH[OF ys])
      show "smallest < length (pre @ [a])" using Cons.prems(2) by simp
      show "v = ys ! smallest" by (rule Cons.prems(3))
      show "\<forall>j<length (pre @ [a]). v \<le> ys ! j"
        using Cons.prems(4) False a by (auto simp: less_Suc_eq)
      show "\<forall>j<smallest. v < ys ! j" by (rule Cons.prems(5))
    qed
    then show ?thesis using False by simp
  qed
qed

lemma min_element_correct:
  assumes "temp \<noteq> []"
  shows "min_element temp < length temp
       \<and> (\<forall>j<length temp. temp ! min_element temp \<le> temp ! j)
       \<and> (\<forall>j<min_element temp. temp ! min_element temp < temp ! j)"
proof -
  from assms obtain a as where t: "temp = a # as" by (cases temp) auto
  have "min_element_scan as (length [a]) 0 a < length temp
       \<and> (\<forall>j<length temp. temp ! min_element_scan as (length [a]) 0 a \<le> temp ! j)
       \<and> (\<forall>j<min_element_scan as (length [a]) 0 a. temp ! min_element_scan as (length [a]) 0 a < temp ! j)"
    by (rule min_element_scan_correct) (auto simp: t)
  then show ?thesis by (simp add: t min_element_def)
qed


lemma length_concat_map_const:
  assumes "\<And>x. length (f x) = n"
  shows "length (concat (map f xs)) = length xs * n"
  by (induction xs) (simp_all add: assms)

section \<open>Evaluation on concrete inputs\<close>

text \<open>The equations that run the program on a given input.\<close>

lemmas bip_eval = run_bip_def init_state_def round_body_def all_candidates_def
  candidates_transmitting_def candidates_nontransmitting_def min_element_def
  update_transmitting_def doubleEquals_def default_epsilon_def erase_def
  bip_loop.simps promote_loop.simps remove_uncovered.simps Let_def upt_rec
  totalBroadcastCost_def

section \<open>The order in which the candidates are enumerated\<close>



lemma length_candidates_transmitting:
  "length (candidates_transmitting transm unc) = length transm * length unc"
  unfolding candidates_transmitting_def by (rule length_concat_map_const) simp

lemma length_candidates_nontransmitting:
  "length (candidates_nontransmitting nontrans unc) = length nontrans * length unc"
  unfolding candidates_nontransmitting_def by (rule length_concat_map_const) simp



section \<open>Selection of the winning candidate\<close>



section \<open>The examples of the specification\<close>

text \<open>
  C5. On the input \<open>[(0,0), (3,4)]\<close> the program runs one round and ends with the source
  transmitting at power 25, the node \<open>(3,4)\<close> covered and not transmitting, nothing
  uncovered, a total broadcast cost of 25 and the one path entry \<open>(0,0), +25\<close>.
\<close>

theorem two_node_example:
  "\<exists>s. run_bip [(0, 0), (3, 4)] = Inr s \<and> round s = 1
     \<and> transmitting s = [\<lparr>tx = 0, ty = 0, power = 25\<rparr>]
     \<and> nontransmitting s = [(3, 4)] \<and> uncovered s = []
     \<and> totalBroadcastCost s = 25
     \<and> transmissionPath s = [\<lparr>tx = 0, ty = 0, power = 25\<rparr>]"
  by (simp add: bip_eval)

text \<open>
  C6. On the input \<open>[(0,0), (1,0), (2,0)]\<close> the first round covers \<open>(1,0)\<close> from the source
  at cost 1; in the second round the candidates are the source at marginal cost 3 and the
  relay \<open>(1,0)\<close> at cost 1, and the relay is promoted. The run ends there, with the source
  and \<open>(1,0)\<close> transmitting at power 1 each, total cost 2 and the path
  \<open>[(0,0) +1, (1,0) +1]\<close>.
\<close>

theorem three_node_example:
  "\<exists>s0 s1 s2.
     init_state [(0, 0), (1, 0), (2, 0)] = Inr s0
     \<and> round_body s0 = Inr s1
     \<and> s1 = \<lparr>transmitting = [\<lparr>tx = 0, ty = 0, power = 1\<rparr>], nontransmitting = [(1, 0)],
             uncovered = [(2, 0)], transmissionPath = [\<lparr>tx = 0, ty = 0, power = 1\<rparr>], round = 1\<rparr>
     \<and> all_candidates s1 =
           [\<lparr>minPower = 3, xSource = 0, ySource = 0, xUncovered = 2, yUncovered = 0\<rparr>,
            \<lparr>minPower = 1, xSource = 1, ySource = 0, xUncovered = 2, yUncovered = 0\<rparr>]
     \<and> round_body s1 = Inr s2
     \<and> s2 = \<lparr>transmitting = [\<lparr>tx = 0, ty = 0, power = 1\<rparr>, \<lparr>tx = 1, ty = 0, power = 1\<rparr>],
             nontransmitting = [(2, 0)], uncovered = [],
             transmissionPath = [\<lparr>tx = 0, ty = 0, power = 1\<rparr>, \<lparr>tx = 1, ty = 0, power = 1\<rparr>],
             round = 2\<rparr>
     \<and> run_bip [(0, 0), (1, 0), (2, 0)] = Inr s2
     \<and> totalBroadcastCost s2 = 2"
  by (simp add: bip_eval)

section \<open>Command line and input file\<close>

text \<open>
  C7. When the file cannot be opened the loader returns the empty sequence and no error;
  the read of \<^verbatim>\<open>locations[0]\<close> in line 68 is then out of bounds, and a program started
  with one path argument naming such a file ends in that branch. With at least one
  location the read is inside the vector and the source is seeded with power 0.
\<close>

theorem unopened_file:
  "load_locations stod None = Inr []
   \<and> init_state [] = Inl OutOfBounds
   \<and> (0 < length locations \<longrightarrow>
        (\<exists>s. init_state locations = Inr s
           \<and> transmitting s = [\<lparr>tx = fst (hd locations), ty = snd (hd locations), power = 0\<rparr>]))
   \<and> (int (length argv) = 2 \<and> fs (argv ! 1) = None \<longrightarrow>
        main stod shd shi fs argv = Inl OutOfBounds)"
  by (auto simp: load_locations_def init_state_def main_def hd_conv_nth)

theorem unopened_file_witness:
  "load_locations (\<lambda>_. None) None = Inr []
   \<and> init_state [] = Inl OutOfBounds
   \<and> (\<exists>s. init_state [(3, 4)] = Inr s \<and> transmitting s = [\<lparr>tx = 3, ty = 4, power = 0\<rparr>])
   \<and> main (\<lambda>_. None) (\<lambda>_. []) (\<lambda>_. []) (\<lambda>_. None) [''./a.out'', ''missing.txt'']
       = Inl OutOfBounds"
  using unopened_file[of "\<lambda>_. None" "[(3, 4)]" "[''./a.out'', ''missing.txt'']" "\<lambda>_. None" "\<lambda>_. []" "\<lambda>_. []"]
  by simp

text \<open>
  C8. When the number of arguments is not 2, the program writes the single line
  \<^verbatim>\<open>Run the command: ./a.out locations.txt\<close> and returns -1, whatever the file system,
  the number parser and the argument values are: nothing is read and nothing else is
  written.
\<close>

theorem usage_error:
  "int (length argv) \<noteq> 2 \<Longrightarrow>
     main stod shd shi fs argv = Inr ([''Run the command: ./a.out locations.txt''], - 1)"
  by (simp add: main_def)

theorem usage_error_witness:
  "main (\<lambda>_. None) (\<lambda>_. []) (\<lambda>_. []) (\<lambda>_. None) [''./a.out'']
     = Inr ([''Run the command: ./a.out locations.txt''], - 1)
   \<and> main (\<lambda>_. Some 0) (\<lambda>_. []) (\<lambda>_. []) (\<lambda>_. Some [''(0,0)''])
        [''./a.out'', ''locations.txt'', ''more.txt'']
     = Inr ([''Run the command: ./a.out locations.txt''], - 1)"
proof -
  have a: "int (length [''./a.out'']) \<noteq> 2" by simp
  have b: "int (length [''./a.out'', ''locations.txt'', ''more.txt'']) \<noteq> 2" by simp
  show ?thesis
    using usage_error[OF a] usage_error[OF b] by blast
qed

section \<open>Nodes closer than the tolerance\<close>


section \<open>What one round does to the state\<close>

text \<open>How many rows such a loop erases.\<close>

fun skip_count :: "('a \<Rightarrow> bool) \<Rightarrow> 'a list \<Rightarrow> nat" where
  "skip_count P [] = 0"
| "skip_count P [x] = (if P x then 1 else 0)"
| "skip_count P (x # y # ys) =
     (if P x then Suc (skip_count P ys) else skip_count P (y # ys))"

lemma skip_count_no: "\<not> P x \<Longrightarrow> skip_count P (x # xs) = skip_count P xs"
  by (cases xs) auto

lemma skip_count_yes: "P x \<Longrightarrow> skip_count P (x # xs) = Suc (skip_count P (drop 1 xs))"
  by (cases xs) auto

lemma promote_loop_skip:
  "promote_loop i nontrans transm w =
     (take i nontrans @ skip_erase (matches (xSource w) (ySource w)) (drop i nontrans),
      transm @ replicate (skip_count (matches (xSource w) (ySource w)) (drop i nontrans))
                 \<lparr>tx = xSource w, ty = ySource w, power = minPower w\<rparr>)"
proof (induction i nontrans transm w rule: promote_loop.induct)
  case (1 i nontrans transm w)
  let ?P = "matches (xSource w) (ySource w)"
  let ?row = "\<lparr>tx = xSource w, ty = ySource w, power = minPower w\<rparr>"
  show ?case
  proof (cases "i < length nontrans")
    case False
    then show ?thesis by (subst promote_loop.simps) simp
  next
    case True
    then obtain x rest where d: "drop i nontrans = x # rest" and x: "x = nontrans ! i"
      by (metis Cons_nth_drop_Suc)
    have rest: "rest = drop (Suc i) nontrans"
      using d by (metis drop_Suc tl_drop list.sel(3))
    show ?thesis
    proof (cases "?P (nontrans ! i)")
      case m: True
      have "promote_loop i nontrans transm w
          = promote_loop (i + 1) (erase nontrans i) (transm @ [?row]) w"
        using True m by (subst promote_loop.simps) (simp add: matches_def)
      also have "\<dots> = (take (Suc i) (erase nontrans i) @ skip_erase ?P (drop (Suc i) (erase nontrans i)),
          (transm @ [?row]) @ replicate (skip_count ?P (drop (Suc i) (erase nontrans i))) ?row)"
        using 1(1)[OF True] m by (simp add: matches_def)
      also have "\<dots> = (take i nontrans @ take 1 rest @ skip_erase ?P (drop 1 rest),
          transm @ replicate (Suc (skip_count ?P (drop 1 rest))) ?row)"
        using True by (simp add: erase_drop erase_take rest)
      also have "take 1 rest @ skip_erase ?P (drop 1 rest) = skip_erase ?P (x # rest)"
        using m x by (simp add: skip_erase_yes)
      also have "Suc (skip_count ?P (drop 1 rest)) = skip_count ?P (x # rest)"
        using m x by (simp add: skip_count_yes)
      finally show ?thesis using d by simp
    next
      case m: False
      have "promote_loop i nontrans transm w = promote_loop (i + 1) nontrans transm w"
        using True m by (subst promote_loop.simps) (auto simp: matches_def)
      also have "\<dots> = (take (Suc i) nontrans @ skip_erase ?P (drop (Suc i) nontrans),
          transm @ replicate (skip_count ?P (drop (Suc i) nontrans)) ?row)"
        using 1(2)[OF True] m by (auto simp: matches_def)
      also have "\<dots> = (take i nontrans @ skip_erase ?P (x # rest),
          transm @ replicate (skip_count ?P (x # rest)) ?row)"
        using m x True rest by (simp add: take_Suc_conv_app_nth skip_erase_no skip_count_no)
      finally show ?thesis using d by simp
    qed
  qed
qed

lemma round_body_Inr:
  assumes "round_body s = Inr s'"
  obtains w where
    "w = all_candidates s ! min_element (map minPower (all_candidates s))"
    "w \<in> set (all_candidates s)"
    "\<forall>c\<in>set (all_candidates s). minPower w \<le> minPower c"
    "transmissionPath s' = transmissionPath s @ [\<lparr>tx = xSource w, ty = ySource w, power = minPower w\<rparr>]"
    "transmitting s' = update_transmitting (transmitting s) w
        @ replicate (skip_count (matches (xSource w) (ySource w)) (nontransmitting s))
            \<lparr>tx = xSource w, ty = ySource w, power = minPower w\<rparr>"
    "nontransmitting s' = skip_erase (matches (xSource w) (ySource w)) (nontransmitting s)
        @ [(xUncovered w, yUncovered w)]"
    "uncovered s' = skip_erase (matches (xUncovered w) (yUncovered w)) (uncovered s)"
    "round s' = round s + 1"
proof -
  let ?cs = "all_candidates s"
  let ?k = "min_element (map minPower ?cs)"
  let ?w = "?cs ! ?k"
  from assms have k: "?k < length ?cs"
    by (auto simp: round_body_def Let_def split: if_splits)
  then have ne: "map minPower ?cs \<noteq> []" by auto
  have mem: "?w \<in> set ?cs" using k by simp
  have least: "\<forall>c\<in>set ?cs. minPower ?w \<le> minPower c"
  proof
    fix c assume "c \<in> set ?cs"
    then obtain j where "j < length ?cs" "c = ?cs ! j" by (auto simp: in_set_conv_nth)
    with min_element_correct[OF ne] k show "minPower ?w \<le> minPower c" by auto
  qed
  from assms k have s': "s' = \<lparr>transmitting = snd (promote_loop 0 (nontransmitting s) (update_transmitting (transmitting s) ?w) ?w),
       nontransmitting = fst (promote_loop 0 (nontransmitting s) (update_transmitting (transmitting s) ?w) ?w) @ [(xUncovered ?w, yUncovered ?w)],
       uncovered = remove_uncovered 0 (uncovered s) ?w,
       transmissionPath = transmissionPath s @ [\<lparr>tx = xSource ?w, ty = ySource ?w, power = minPower ?w\<rparr>],
       round = round s + 1\<rparr>"
    by (auto simp: round_body_def Let_def split: if_splits prod.splits)
  show ?thesis
    by (rule that[of ?w]) (simp_all add: mem least s' promote_loop_skip remove_uncovered_skip)
qed

section \<open>Without rounding, powers and candidate costs are never negative\<close>

text \<open>
  The states of the run on a list of locations: the initial state and every state a round
  of the loop leads to.
\<close>

inductive reachable :: "point list \<Rightarrow> bip_state \<Rightarrow> bool" for locations :: "point list" where
  reachable_init: "init_state locations = Inr s \<Longrightarrow> reachable locations s"
| reachable_round: "reachable locations s \<Longrightarrow> 0 < length (uncovered s) \<Longrightarrow> round_body s = Inr s'
     \<Longrightarrow> reachable locations s'"

text \<open>The squared distance of lines 109 and 124.\<close>

definition dist2 :: "real \<Rightarrow> real \<Rightarrow> point \<Rightarrow> real" where
  "dist2 x y u = (x - fst u)\<^sup>2 + (y - snd u)\<^sup>2"

text \<open>
  No stored power is negative, and none exceeds the squared distance from its node to a
  node still uncovered.
\<close>

definition power_inv :: "bip_state \<Rightarrow> bool" where
  "power_inv s =
     (\<forall>t\<in>set (transmitting s). 0 \<le> power t
        \<and> (\<forall>u\<in>set (uncovered s). power t \<le> dist2 (tx t) (ty t) u))"

lemma dist2_nonneg: "0 \<le> dist2 x y u"
  by (simp add: dist2_def)

lemma in_concat_map:
  "x \<in> set xs \<Longrightarrow> y \<in> set ys \<Longrightarrow> g x y \<in> set (concat (map (\<lambda>x. map (g x) ys) xs))"
  by auto

lemma concat_map_cases:
  "c \<in> set (concat (map (\<lambda>x. map (g x) ys) xs)) \<Longrightarrow> \<exists>x\<in>set xs. \<exists>y\<in>set ys. c = g x y"
  by auto

lemma in_set_map_cases: "y \<in> set (map f xs) \<Longrightarrow> \<exists>x\<in>set xs. y = f x"
  by auto

lemma all_candidates_cases:
  assumes "c \<in> set (all_candidates s)"
  obtains (transmitting) t u where "t \<in> set (transmitting s)" "u \<in> set (uncovered s)"
      "minPower c = dist2 (tx t) (ty t) u - power t" "xSource c = tx t" "ySource c = ty t"
      "xUncovered c = fst u" "yUncovered c = snd u"
  | (relay) n u where "n \<in> set (nontransmitting s)" "u \<in> set (uncovered s)"
      "minPower c = dist2 (fst n) (snd n) u" "xSource c = fst n" "ySource c = snd n"
      "xUncovered c = fst u" "yUncovered c = snd u"
proof -
  from assms have "c \<in> set (candidates_transmitting (transmitting s) (uncovered s))
      \<or> c \<in> set (candidates_nontransmitting (nontransmitting s) (uncovered s))"
    by (simp add: all_candidates_def)
  then show thesis
  proof
    assume "c \<in> set (candidates_transmitting (transmitting s) (uncovered s))"
    then have "\<exists>t\<in>set (transmitting s). \<exists>u\<in>set (uncovered s).
        c = \<lparr>minPower = ((tx t - fst u)\<^sup>2 + (ty t - snd u)\<^sup>2) - power t,
         xSource = tx t, ySource = ty t, xUncovered = fst u, yUncovered = snd u\<rparr>"
      unfolding candidates_transmitting_def by (rule concat_map_cases)
    then obtain t u where tu: "t \<in> set (transmitting s)" "u \<in> set (uncovered s)"
      and c: "c = \<lparr>minPower = ((tx t - fst u)\<^sup>2 + (ty t - snd u)\<^sup>2) - power t,
         xSource = tx t, ySource = ty t, xUncovered = fst u, yUncovered = snd u\<rparr>"
      by (elim bexE)
    show thesis
      by (rule transmitting[OF tu]) (simp_all add: c dist2_def)
  next
    assume "c \<in> set (candidates_nontransmitting (nontransmitting s) (uncovered s))"
    then have "\<exists>n\<in>set (nontransmitting s). \<exists>u\<in>set (uncovered s).
        c = \<lparr>minPower = (fst n - fst u)\<^sup>2 + (snd n - snd u)\<^sup>2,
         xSource = fst n, ySource = snd n, xUncovered = fst u, yUncovered = snd u\<rparr>"
      unfolding candidates_nontransmitting_def by (rule concat_map_cases)
    then obtain n u where nu: "n \<in> set (nontransmitting s)" "u \<in> set (uncovered s)"
      and c: "c = \<lparr>minPower = (fst n - fst u)\<^sup>2 + (snd n - snd u)\<^sup>2,
         xSource = fst n, ySource = snd n, xUncovered = fst u, yUncovered = snd u\<rparr>"
      by (elim bexE)
    show thesis
      by (rule relay[OF nu]) (simp_all add: c dist2_def)
  qed
qed

lemma transmitting_candidate:
  assumes "t \<in> set (transmitting s)" "u \<in> set (uncovered s)"
  shows "\<exists>c\<in>set (all_candidates s). minPower c = dist2 (tx t) (ty t) u - power t"
proof -
  let ?c = "\<lparr>minPower = ((tx t - fst u)\<^sup>2 + (ty t - snd u)\<^sup>2) - power t,
         xSource = tx t, ySource = ty t, xUncovered = fst u, yUncovered = snd u\<rparr>"
  have "?c \<in> set (candidates_transmitting (transmitting s) (uncovered s))"
    unfolding candidates_transmitting_def
    by (rule in_concat_map[where g = "\<lambda>t u. \<lparr>minPower = ((tx t - fst u)\<^sup>2 + (ty t - snd u)\<^sup>2) - power t,
         xSource = tx t, ySource = ty t, xUncovered = fst u, yUncovered = snd u\<rparr>", OF assms])
  then have "?c \<in> set (all_candidates s)" by (simp add: all_candidates_def)
  then show ?thesis by (rule bexI[rotated]) (simp add: dist2_def)
qed

lemma nontransmitting_candidate:
  assumes "n \<in> set (nontransmitting s)" "u \<in> set (uncovered s)"
  shows "\<exists>c\<in>set (all_candidates s). minPower c = dist2 (fst n) (snd n) u"
proof -
  let ?c = "\<lparr>minPower = (fst n - fst u)\<^sup>2 + (snd n - snd u)\<^sup>2,
         xSource = fst n, ySource = snd n, xUncovered = fst u, yUncovered = snd u\<rparr>"
  have "?c \<in> set (candidates_nontransmitting (nontransmitting s) (uncovered s))"
    unfolding candidates_nontransmitting_def
    by (rule in_concat_map[where g = "\<lambda>n u. \<lparr>minPower = (fst n - fst u)\<^sup>2 + (snd n - snd u)\<^sup>2,
         xSource = fst n, ySource = snd n, xUncovered = fst u, yUncovered = snd u\<rparr>", OF assms])
  then have "?c \<in> set (all_candidates s)" by (simp add: all_candidates_def)
  then show ?thesis by (rule bexI[rotated]) (simp add: dist2_def)
qed

lemma candidate_nonneg:
  assumes "power_inv s" "c \<in> set (all_candidates s)"
  shows "0 \<le> minPower c"
  using assms(2)
proof (cases rule: all_candidates_cases)
  case (transmitting t u)
  then show ?thesis using assms(1) by (simp add: power_inv_def)
next
  case (relay n u)
  then show ?thesis by (simp add: dist2_nonneg)
qed

lemma set_skip_erase: "set (skip_erase P xs) \<subseteq> set xs"
  by (induction P xs rule: skip_erase.induct) auto

lemma set_update_transmitting:
  assumes "t' \<in> set (update_transmitting transm w)"
  obtains t where "t \<in> set transm" "tx t' = tx t" "ty t' = ty t"
    "power t' = power t \<or> power t' = power t + minPower w"
proof -
  from assms have "\<exists>t\<in>set transm. t' = (if doubleEquals (tx t) (xSource w) default_epsilon
                 \<and> doubleEquals (ty t) (ySource w) default_epsilon
               then t\<lparr>power := power t + minPower w\<rparr> else t)"
    unfolding update_transmitting_def by (rule in_set_map_cases)
  then obtain t where t: "t \<in> set transm"
    and t': "t' = (if doubleEquals (tx t) (xSource w) default_epsilon
                 \<and> doubleEquals (ty t) (ySource w) default_epsilon
               then t\<lparr>power := power t + minPower w\<rparr> else t)"
    by (elim bexE)
  show thesis
    by (rule that[OF t]) (simp_all add: t')
qed

lemma power_inv_round:
  assumes inv: "power_inv s" and r: "round_body s = Inr s'"
  shows "power_inv s'"
proof -
  from r obtain w where w: "w \<in> set (all_candidates s)"
    and least: "\<forall>c\<in>set (all_candidates s). minPower w \<le> minPower c"
    and tr: "transmitting s' = update_transmitting (transmitting s) w
        @ replicate (skip_count (matches (xSource w) (ySource w)) (nontransmitting s))
            \<lparr>tx = xSource w, ty = ySource w, power = minPower w\<rparr>"
    and un: "uncovered s' = skip_erase (matches (xUncovered w) (yUncovered w)) (uncovered s)"
    by (rule round_body_Inr)
  have w0: "0 \<le> minPower w" using inv w by (rule candidate_nonneg)
  have sub: "set (uncovered s') \<subseteq> set (uncovered s)" unfolding un by (rule set_skip_erase)
  have src: "minPower w \<le> dist2 (xSource w) (ySource w) u" if u: "u \<in> set (uncovered s)" for u
    using w
  proof (cases rule: all_candidates_cases)
    case (transmitting t v)
    from transmitting_candidate[OF transmitting(1) u] obtain c where
      c: "c \<in> set (all_candidates s)" "minPower c = dist2 (tx t) (ty t) u - power t" by blast
    have p0: "0 \<le> power t" using inv transmitting(1) by (simp add: power_inv_def)
    from least c(1) have "minPower w \<le> minPower c" by blast
    then show ?thesis using c(2) p0 transmitting(4,5) by simp
  next
    case (relay n v)
    from nontransmitting_candidate[OF relay(1) u] obtain c where
      c: "c \<in> set (all_candidates s)" "minPower c = dist2 (fst n) (snd n) u" by blast
    from least c(1) have "minPower w \<le> minPower c" by blast
    then show ?thesis using c(2) relay(4,5) by simp
  qed
  have old: "0 \<le> power t' \<and> (\<forall>u\<in>set (uncovered s). power t' \<le> dist2 (tx t') (ty t') u)"
    if "t' \<in> set (update_transmitting (transmitting s) w)" for t'
  proof -
    from that obtain t where t: "t \<in> set (transmitting s)" "tx t' = tx t" "ty t' = ty t"
      and pw: "power t' = power t \<or> power t' = power t + minPower w"
      by (rule set_update_transmitting)
    have p0: "0 \<le> power t" and pd: "\<forall>u\<in>set (uncovered s). power t \<le> dist2 (tx t) (ty t) u"
      using inv t(1) by (simp_all add: power_inv_def)
    have grow: "power t + minPower w \<le> dist2 (tx t) (ty t) u" if u: "u \<in> set (uncovered s)" for u
    proof -
      from transmitting_candidate[OF t(1) u] obtain c where
        c: "c \<in> set (all_candidates s)" "minPower c = dist2 (tx t) (ty t) u - power t" by blast
      from least c(1) have "minPower w \<le> minPower c" by blast
      then show ?thesis using c(2) by simp
    qed
    from pw show ?thesis
    proof
      assume "power t' = power t"
      then show ?thesis using p0 pd t(2,3) by simp
    next
      assume "power t' = power t + minPower w"
      then show ?thesis using p0 w0 grow t(2,3) by simp
    qed
  qed
  have new: "0 \<le> power t' \<and> (\<forall>u\<in>set (uncovered s). power t' \<le> dist2 (tx t') (ty t') u)"
    if "t' = \<lparr>tx = xSource w, ty = ySource w, power = minPower w\<rparr>" for t'
    using that w0 src by simp
  have "0 \<le> power t' \<and> (\<forall>u\<in>set (uncovered s'). power t' \<le> dist2 (tx t') (ty t') u)"
    if "t' \<in> set (transmitting s')" for t'
  proof -
    from that have "t' \<in> set (update_transmitting (transmitting s) w)
      \<or> t' = \<lparr>tx = xSource w, ty = ySource w, power = minPower w\<rparr>"
      unfolding tr by (auto simp: set_replicate_conv_if split: if_splits)
    then have "0 \<le> power t' \<and> (\<forall>u\<in>set (uncovered s). power t' \<le> dist2 (tx t') (ty t') u)"
      using old new by blast
    then show ?thesis using sub by blast
  qed
  then show ?thesis unfolding power_inv_def by blast
qed

lemma power_inv_init: "init_state locations = Inr s \<Longrightarrow> power_inv s"
  by (auto simp: init_state_def power_inv_def dist2_nonneg split: if_splits)

lemma reachable_power_inv: "reachable locations s \<Longrightarrow> power_inv s"
  by (induction rule: reachable.induct) (auto intro: power_inv_init power_inv_round)

lemma update_transmitting_nth:
  assumes "i < length transm"
  shows "tx (update_transmitting transm w ! i) = tx (transm ! i)"
    and "ty (update_transmitting transm w ! i) = ty (transm ! i)"
    and "power (update_transmitting transm w ! i) = power (transm ! i)
       \<or> power (update_transmitting transm w ! i) = power (transm ! i) + minPower w"
  using assms by (simp_all add: update_transmitting_def)

lemma length_update_transmitting [simp]: "length (update_transmitting transm w) = length transm"
  by (simp add: update_transmitting_def)

text \<open>
  In exact arithmetic, in every round of a run every row of the transmitting vector keeps
  its position and its coordinates, and its power either stays or has the winning cost of
  the round (the last entry of the transmission path) added to it; that cost is never
  negative, so the power after the round is at least the power before it. This is the
  algorithm as designed; the rounded arithmetic of the program does not keep it, as the
  last section shows.
\<close>

theorem power_never_decreases:
  assumes "reachable locations s" and "round_body s = Inr s'"
  shows "length (transmitting s) \<le> length (transmitting s')
     \<and> 0 \<le> power (last (transmissionPath s'))
     \<and> (\<forall>i<length (transmitting s).
           tx (transmitting s' ! i) = tx (transmitting s ! i)
         \<and> ty (transmitting s' ! i) = ty (transmitting s ! i)
         \<and> (power (transmitting s' ! i) = power (transmitting s ! i)
            \<or> power (transmitting s' ! i) = power (transmitting s ! i) + power (last (transmissionPath s')))
         \<and> power (transmitting s ! i) \<le> power (transmitting s' ! i))"
proof -
  from assms(2) obtain w where w: "w \<in> set (all_candidates s)"
    and tr: "transmitting s' = update_transmitting (transmitting s) w
        @ replicate (skip_count (matches (xSource w) (ySource w)) (nontransmitting s))
            \<lparr>tx = xSource w, ty = ySource w, power = minPower w\<rparr>"
    and pa: "transmissionPath s' = transmissionPath s @ [\<lparr>tx = xSource w, ty = ySource w, power = minPower w\<rparr>]"
    by (rule round_body_Inr)
  have w0: "0 \<le> minPower w"
    using reachable_power_inv[OF assms(1)] w by (rule candidate_nonneg)
  have la: "power (last (transmissionPath s')) = minPower w" by (simp add: pa)
  have "\<forall>i<length (transmitting s).
           tx (transmitting s' ! i) = tx (transmitting s ! i)
         \<and> ty (transmitting s' ! i) = ty (transmitting s ! i)
         \<and> (power (transmitting s' ! i) = power (transmitting s ! i)
            \<or> power (transmitting s' ! i) = power (transmitting s ! i) + minPower w)
         \<and> power (transmitting s ! i) \<le> power (transmitting s' ! i)"
  proof (intro allI impI)
    fix i assume i: "i < length (transmitting s)"
    have nth: "transmitting s' ! i = update_transmitting (transmitting s) w ! i"
      using i by (simp add: tr nth_append)
    from update_transmitting_nth[OF i, of w] w0 show
      "tx (transmitting s' ! i) = tx (transmitting s ! i)
         \<and> ty (transmitting s' ! i) = ty (transmitting s ! i)
         \<and> (power (transmitting s' ! i) = power (transmitting s ! i)
            \<or> power (transmitting s' ! i) = power (transmitting s ! i) + minPower w)
         \<and> power (transmitting s ! i) \<le> power (transmitting s' ! i)"
      unfolding nth by auto
  qed
  then show ?thesis using w0 la by (simp add: tr)
qed

theorem power_never_decreases_witness:
  "reachable [(0, 0), (1, 0), (1, 1)]
     \<lparr>transmitting = [\<lparr>tx = 0, ty = 0, power = 1\<rparr>], nontransmitting = [(1, 0)],
      uncovered = [(1, 1)], transmissionPath = [\<lparr>tx = 0, ty = 0, power = 1\<rparr>], round = 1\<rparr>
   \<and> round_body
     \<lparr>transmitting = [\<lparr>tx = 0, ty = 0, power = 1\<rparr>], nontransmitting = [(1, 0)],
      uncovered = [(1, 1)], transmissionPath = [\<lparr>tx = 0, ty = 0, power = 1\<rparr>], round = 1\<rparr>
     = Inr \<lparr>transmitting = [\<lparr>tx = 0, ty = 0, power = 2\<rparr>], nontransmitting = [(1, 0), (1, 1)],
      uncovered = [],
      transmissionPath = [\<lparr>tx = 0, ty = 0, power = 1\<rparr>, \<lparr>tx = 0, ty = 0, power = 1\<rparr>], round = 2\<rparr>
   \<and> power ([\<lparr>tx = 0, ty = 0, power = 1\<rparr>] ! 0) \<le> power ([\<lparr>tx = 0, ty = 0, power = 2::real\<rparr>] ! 0)"
proof -
  let ?L = "[(0, 0), (1, 0), (1, 1)] :: point list"
  let ?s0 = "\<lparr>transmitting = [\<lparr>tx = 0, ty = 0, power = 0\<rparr>], nontransmitting = [],
      uncovered = [(1, 0), (1, 1)], transmissionPath = [], round = 0\<rparr>"
  let ?s1 = "\<lparr>transmitting = [\<lparr>tx = 0, ty = 0, power = 1\<rparr>], nontransmitting = [(1, 0)],
      uncovered = [(1, 1)], transmissionPath = [\<lparr>tx = 0, ty = 0, power = 1\<rparr>], round = 1\<rparr>"
  let ?s2 = "\<lparr>transmitting = [\<lparr>tx = 0, ty = 0, power = 2\<rparr>], nontransmitting = [(1, 0), (1, 1)],
      uncovered = [],
      transmissionPath = [\<lparr>tx = 0, ty = 0, power = 1\<rparr>, \<lparr>tx = 0, ty = 0, power = 1\<rparr>], round = 2\<rparr>"
  have i: "init_state ?L = Inr ?s0" by (simp add: bip_eval)
  have r1: "round_body ?s0 = Inr ?s1" by (simp add: bip_eval)
  have r2: "round_body ?s1 = Inr ?s2" by (simp add: bip_eval)
  have re: "reachable ?L ?s1"
    by (rule reachable_round[OF reachable_init[OF i] _ r1]) simp
  from power_never_decreases[OF re r2]
  have "power (transmitting ?s1 ! 0) \<le> power (transmitting ?s2 ! 0)" by simp
  with re r2 show ?thesis by simp
qed

section \<open>Inputs whose nodes are further apart than the tolerance\<close>

text \<open>
  A list of points no two of which, at different positions, are within the tolerance of
  each other on both axes.
\<close>

fun separated :: "point list \<Rightarrow> bool" where
  "separated [] = True"
| "separated (p # ps) = ((\<forall>q\<in>set ps. \<not> matches (fst p) (snd p) q) \<and> separated ps)"

lemma matches_sym: "matches (fst p) (snd p) q = matches (fst q) (snd q) p"
  by (simp add: matches_def doubleEquals_def abs_minus_commute)

lemma skip_erase_none: "\<forall>x\<in>set xs. \<not> P x \<Longrightarrow> skip_erase P xs = xs"
  by (induction P xs rule: skip_erase.induct) auto

lemma skip_count_none: "\<forall>x\<in>set xs. \<not> P x \<Longrightarrow> skip_count P xs = 0"
  by (induction P xs rule: skip_count.induct) auto

lemma separated_remove1: "separated xs \<Longrightarrow> separated (remove1 w xs)"
  by (induction xs) (auto dest: notin_set_remove1)

lemma separated_distinct: "separated xs \<Longrightarrow> distinct xs"
proof (induction xs)
  case (Cons p ps)
  then show ?case using matches_self[of p] by auto
qed simp

lemma skip_erase_separated:
  assumes "separated xs" "w \<in> set xs"
  shows "skip_erase (matches (fst w) (snd w)) xs = remove1 w xs"
  using assms
proof (induction xs)
  case Nil
  then show ?case by simp
next
  case (Cons p ps)
  let ?P = "matches (fst w) (snd w)"
  show ?case
  proof (cases "p = w")
    case True
    have "\<forall>q\<in>set ps. \<not> ?P q" using Cons.prems(1) True by simp
    then have "\<forall>q\<in>set (drop 1 ps). \<not> ?P q" by (auto dest: in_set_dropD)
    then have "skip_erase ?P (drop 1 ps) = drop 1 ps" by (rule skip_erase_none)
    moreover have "?P p" using True matches_self[of w] by simp
    ultimately show ?thesis using True by (simp add: skip_erase_yes)
  next
    case False
    then have w: "w \<in> set ps" using Cons.prems(2) by simp
    have "\<not> matches (fst p) (snd p) w" using Cons.prems(1) w by simp
    then have np: "\<not> ?P p" by (simp add: matches_sym[of w p])
    have "skip_erase ?P ps = remove1 w ps" using Cons.IH Cons.prems(1) w by simp
    then show ?thesis using np False by (simp add: skip_erase_no)
  qed
qed

lemma skip_count_separated:
  assumes "separated xs" "w \<in> set xs"
  shows "skip_count (matches (fst w) (snd w)) xs = 1"
  using assms
proof (induction xs)
  case Nil
  then show ?case by simp
next
  case (Cons p ps)
  let ?P = "matches (fst w) (snd w)"
  show ?case
  proof (cases "p = w")
    case True
    have "\<forall>q\<in>set ps. \<not> ?P q" using Cons.prems(1) True by simp
    then have "\<forall>q\<in>set (drop 1 ps). \<not> ?P q" by (auto dest: in_set_dropD)
    then have "skip_count ?P (drop 1 ps) = 0" by (rule skip_count_none)
    moreover have "?P p" using True matches_self[of w] by simp
    ultimately show ?thesis by (simp add: skip_count_yes)
  next
    case False
    then have w: "w \<in> set ps" using Cons.prems(2) by simp
    have "\<not> matches (fst p) (snd p) w" using Cons.prems(1) w by simp
    then have np: "\<not> ?P p" by (simp add: matches_sym[of w p])
    have "skip_count ?P ps = 1" using Cons.IH Cons.prems(1) w by simp
    then show ?thesis using np by (simp add: skip_count_no)
  qed
qed

lemma init_state_uncovered: "init_state locations = Inr s \<Longrightarrow> uncovered s = tl locations"
proof -
  assume a: "init_state locations = Inr s"
  then have "uncovered s = map (\<lambda>i. locations ! i) [1 ..< length locations]"
    by (auto simp: init_state_def split: if_splits)
  also have "\<dots> = drop 1 locations"
    by (metis drop_map drop_upt map_nth add.commute add.right_neutral)
  finally show ?thesis by (simp add: drop_Suc)
qed

section \<open>Termination and the number of rounds\<close>

lemma reachable_transmitting_nonempty: "reachable locations s \<Longrightarrow> transmitting s \<noteq> []"
proof (induction rule: reachable.induct)
  case (reachable_init s)
  then show ?case by (auto simp: init_state_def split: if_splits)
next
  case (reachable_round s s')
  from reachable_round(3) obtain w where
    "transmitting s' = update_transmitting (transmitting s) w
        @ replicate (skip_count (matches (xSource w) (ySource w)) (nontransmitting s))
            \<lparr>tx = xSource w, ty = ySource w, power = minPower w\<rparr>"
    by (rule round_body_Inr)
  then show ?case using reachable_round.IH by (simp add: update_transmitting_def)
qed

lemma round_body_succeeds:
  assumes "transmitting s \<noteq> []" "0 < length (uncovered s)"
  shows "\<exists>s'. round_body s = Inr s'"
proof -
  have "length (all_candidates s) = (length (transmitting s) + length (nontransmitting s)) * length (uncovered s)"
    by (simp add: all_candidates_def length_candidates_transmitting
        length_candidates_nontransmitting add_mult_distrib)
  then have "0 < length (all_candidates s)" using assms by simp
  then have "map minPower (all_candidates s) \<noteq> []" by auto
  from min_element_correct[OF this]
  have "min_element (map minPower (all_candidates s)) < length (all_candidates s)" by simp
  then show ?thesis by (simp add: round_body_def Let_def split: prod.splits)
qed

lemma reachable_path_length: "reachable locations s \<Longrightarrow> length (transmissionPath s) = round s"
proof (induction rule: reachable.induct)
  case (reachable_init s)
  then show ?case by (auto simp: init_state_def split: if_splits)
next
  case (reachable_round s s')
  from reachable_round(3) obtain w :: candidate where
    "transmissionPath s' = transmissionPath s @ [\<lparr>tx = xSource w, ty = ySource w, power = minPower w\<rparr>]"
    "round s' = round s + 1"
    by (rule round_body_Inr)
  then show ?case using reachable_round.IH by simp
qed

lemma reachable_round_bound:
  "reachable locations s \<Longrightarrow> length (uncovered s) + round s \<le> length locations - 1"
proof (induction rule: reachable.induct)
  case (reachable_init s)
  then show ?case by (auto simp: init_state_def split: if_splits)
next
  case (reachable_round s s')
  from reachable_round(3) obtain w :: candidate where "round s' = round s + 1"
    by (rule round_body_Inr)
  moreover have "length (uncovered s') < length (uncovered s)"
    using reachable_round(3) by (rule round_body_uncovered_less)
  ultimately show ?case using reachable_round.IH by simp
qed

lemma round_body_separated:
  assumes "separated (uncovered s)" "round_body s = Inr s'"
  shows "separated (uncovered s') \<and> length (uncovered s') + 1 = length (uncovered s)"
proof -
  from assms(2) obtain w where w: "w \<in> set (all_candidates s)"
    and un: "uncovered s' = skip_erase (matches (xUncovered w) (yUncovered w)) (uncovered s)"
    by (rule round_body_Inr)
  let ?u = "(xUncovered w, yUncovered w)"
  have u: "?u \<in> set (uncovered s)" using w by (rule all_candidates_target)
  from skip_erase_separated[OF assms(1) u]
  have eq: "uncovered s' = remove1 ?u (uncovered s)" by (simp add: un)
  have "length (remove1 ?u (uncovered s)) = length (uncovered s) - 1"
    using u by (simp add: length_remove1)
  moreover have "0 < length (uncovered s)" using u by (cases "uncovered s") auto
  ultimately show ?thesis using separated_remove1[OF assms(1), of ?u] eq by simp
qed

lemma reachable_separated:
  assumes "separated (tl locations)"
  shows "reachable locations s \<Longrightarrow>
     separated (uncovered s) \<and> length (uncovered s) + round s = length locations - 1"
proof (induction rule: reachable.induct)
  case (reachable_init s)
  then show ?case using assms init_state_uncovered[OF reachable_init]
    by (auto simp: init_state_def split: if_splits)
next
  case (reachable_round s s')
  from reachable_round(3) obtain w :: candidate where r: "round s' = round s + 1"
    by (rule round_body_Inr)
  from round_body_separated[OF _ reachable_round(3)] reachable_round.IH
  show ?case using r by auto
qed

lemma bip_loop_reachable:
  assumes "reachable locations s"
  shows "\<exists>s' out'. bip_loop shd shi s out = Inr (s', out') \<and> reachable locations s' \<and> uncovered s' = []"
  using assms
proof (induction shd shi s out rule: bip_loop.induct)
  case (1 shd shi s out)
  show ?case
  proof (cases "0 < length (uncovered s)")
    case False
    then show ?thesis using 1(2) by (subst bip_loop.simps) simp
  next
    case True
    from round_body_succeeds[OF reachable_transmitting_nonempty[OF 1(2)] True]
    obtain s1 where s1: "round_body s = Inr s1" by blast
    have "reachable locations s1" using 1(2) True s1 by (rule reachable_round)
    from 1(1)[OF True s1 this] obtain s' out' where
      "bip_loop shd shi s1 (out @ round_report shd shi s1) = Inr (s', out')"
      "reachable locations s'" "uncovered s' = []" by blast
    then show ?thesis using True s1 by (subst bip_loop.simps) simp
  qed
qed

lemma run_bip_reachable:
  assumes "0 < length locations"
  shows "\<exists>s. run_bip locations = Inr s \<and> reachable locations s \<and> uncovered s = []"
proof -
  from assms obtain s0 where s0: "init_state locations = Inr s0"
    by (auto simp: init_state_def)
  then have "reachable locations s0" by (rule reachable_init)
  from bip_loop_reachable[OF this, of "\<lambda>_. []" "\<lambda>_. []" "[]"] obtain s' out' where
    "bip_loop (\<lambda>_. []) (\<lambda>_. []) s0 [] = Inr (s', out')" "reachable locations s'" "uncovered s' = []"
    by blast
  then show ?thesis using s0 by (simp add: run_bip_def)
qed

text \<open>
  For every input with at least one node the loop terminates without error, with nothing
  left uncovered; the transmission path has one entry for each round performed, and at
  most \<open>N - 1\<close> rounds are performed. When no two of the nodes after the source are within
  the tolerance of each other on both axes, every round takes exactly one node out of the
  uncovered vector and exactly \<open>N - 1\<close> rounds are performed.
\<close>

theorem loop_terminates_rounds:
  assumes "0 < length locations"
  shows "\<exists>s. run_bip locations = Inr s \<and> uncovered s = []
     \<and> length (transmissionPath s) = round s
     \<and> round s \<le> length locations - 1
     \<and> (separated (tl locations) \<longrightarrow>
          round s = length locations - 1
        \<and> (\<forall>t t'. reachable locations t \<and> round_body t = Inr t'
              \<longrightarrow> length (uncovered t') + 1 = length (uncovered t)))"
proof -
  from run_bip_reachable[OF assms] obtain s where
    s: "run_bip locations = Inr s" "reachable locations s" "uncovered s = []" by blast
  have p: "length (transmissionPath s) = round s" using s(2) by (rule reachable_path_length)
  have b: "round s \<le> length locations - 1" using reachable_round_bound[OF s(2)] by simp
  have e: "round s = length locations - 1
        \<and> (\<forall>t t'. reachable locations t \<and> round_body t = Inr t'
              \<longrightarrow> length (uncovered t') + 1 = length (uncovered t))"
    if sep: "separated (tl locations)"
  proof
    show "round s = length locations - 1"
      using reachable_separated[OF sep s(2)] s(3) by simp
    show "\<forall>t t'. reachable locations t \<and> round_body t = Inr t'
              \<longrightarrow> length (uncovered t') + 1 = length (uncovered t)"
      using reachable_separated[OF sep] round_body_separated by blast
  qed
  show ?thesis
    by (rule exI[of _ s]) (use s p b e in blast)
qed

theorem loop_terminates_rounds_witness:
  "0 < length [(0, 0), (1, 0), (2, 0) :: point]
   \<and> separated (tl [(0, 0), (1, 0), (2, 0)])
   \<and> run_bip [(0, 0), (1, 0), (2, 0)]
       = Inr \<lparr>transmitting = [\<lparr>tx = 0, ty = 0, power = 1\<rparr>, \<lparr>tx = 1, ty = 0, power = 1\<rparr>],
             nontransmitting = [(2, 0)], uncovered = [],
             transmissionPath = [\<lparr>tx = 0, ty = 0, power = 1\<rparr>, \<lparr>tx = 1, ty = 0, power = 1\<rparr>],
             round = 2\<rparr>
   \<and> length [(0, 0), (1, 0), (2, 0) :: point] - 1 = 2"
proof -
  let ?L = "[(0, 0), (1, 0), (2, 0)] :: point list"
  let ?s = "\<lparr>transmitting = [\<lparr>tx = 0, ty = 0, power = 1\<rparr>, \<lparr>tx = 1, ty = 0, power = 1\<rparr>],
             nontransmitting = [(2, 0)], uncovered = [],
             transmissionPath = [\<lparr>tx = 0, ty = 0, power = 1\<rparr>, \<lparr>tx = 1, ty = 0, power = 1\<rparr>],
             round = 2\<rparr>"
  have h: "0 < length ?L" by simp
  have sep: "separated (tl ?L)"
    by (simp add: matches_def doubleEquals_def default_epsilon_def)
  have run: "run_bip ?L = Inr ?s" by (simp add: bip_eval)
  from loop_terminates_rounds[OF h] obtain s where
    "run_bip ?L = Inr s" "separated (tl ?L) \<longrightarrow> round s = length ?L - 1" by blast
  with run sep have "round ?s = length ?L - 1" by simp
  with h sep run show ?thesis by simp
qed

text \<open>
  C2. The claim is that on \<open>N\<close> nodes the loop performs exactly \<open>N - 1\<close> rounds and logs
  \<open>N - 1\<close> path entries, one node being covered per round. The program does not on the
  input \<open>[(0,0), (1,0), (5,5), (1.00001,0)]\<close>: the first round covers \<open>(1,0)\<close> (line 165 adds
  that one node to the covered ones), but lines 169-173 erase both \<open>(1,0)\<close> and
  \<open>(1.00001,0)\<close> from the uncovered vector. The run ends after 2 rounds with 2 path
  entries, where \<open>N - 1 = 3\<close>, and \<open>(1.00001,0)\<close> is never covered.
\<close>

theorem round_count_counterexample:
  "run_bip [(0, 0), (1, 0), (5, 5), (100001 / 100000, 0)]
       = Inr \<lparr>transmitting = [\<lparr>tx = 0, ty = 0, power = 1\<rparr>, \<lparr>tx = 1, ty = 0, power = 41\<rparr>],
             nontransmitting = [(5, 5)], uncovered = [],
             transmissionPath = [\<lparr>tx = 0, ty = 0, power = 1\<rparr>, \<lparr>tx = 1, ty = 0, power = 41\<rparr>],
             round = 2\<rparr>
   \<and> length [(0, 0), (1, 0), (5, 5), (100001 / 100000, 0) :: point] - 1 = 3"
  by (simp add: bip_eval power2_eq_square)

section \<open>The three vectors and the cost balance, without rounding\<close>

text \<open>The coordinates of a row \<open>x, y, power\<close>, and all nodes a state holds.\<close>

definition coords :: "tnode \<Rightarrow> point" where
  "coords t = (tx t, ty t)"

definition nodes :: "bip_state \<Rightarrow> point list" where
  "nodes s = map coords (transmitting s) @ nontransmitting s @ uncovered s"

lemma separated_iff:
  "separated xs \<longleftrightarrow>
     distinct xs \<and> (\<forall>p\<in>set xs. \<forall>q\<in>set xs. matches (fst p) (snd p) q \<longrightarrow> p = q)"
proof (induction xs)
  case Nil
  then show ?case by simp
next
  case (Cons a as)
  show ?case
  proof
    assume l: "separated (a # as)"
    then have na: "\<forall>q\<in>set as. \<not> matches (fst a) (snd a) q" and sa: "separated as" by simp_all
    from sa Cons.IH have d: "distinct as"
      and u: "\<forall>p\<in>set as. \<forall>q\<in>set as. matches (fst p) (snd p) q \<longrightarrow> p = q" by simp_all
    have "a \<notin> set as" using na matches_self[of a] by blast
    moreover have "\<forall>p\<in>set as. \<not> matches (fst p) (snd p) a"
      using na by (simp add: matches_sym[of _ a])
    ultimately show "distinct (a # as)
        \<and> (\<forall>p\<in>set (a # as). \<forall>q\<in>set (a # as). matches (fst p) (snd p) q \<longrightarrow> p = q)"
      using d u na by auto
  next
    assume r: "distinct (a # as)
        \<and> (\<forall>p\<in>set (a # as). \<forall>q\<in>set (a # as). matches (fst p) (snd p) q \<longrightarrow> p = q)"
    then have "distinct as \<and> (\<forall>p\<in>set as. \<forall>q\<in>set as. matches (fst p) (snd p) q \<longrightarrow> p = q)"
      by simp
    then have "separated as" using Cons.IH by simp
    moreover have "\<forall>q\<in>set as. \<not> matches (fst a) (snd a) q"
      using r by auto
    ultimately show "separated (a # as)" by simp
  qed
qed

lemma separated_mset: "mset xs = mset ys \<Longrightarrow> separated xs \<Longrightarrow> separated ys"
  unfolding separated_iff
  by (metis mset_eq_setD mset_eq_imp_distinct_iff)

lemma separated_append:
  "separated (xs @ ys) \<Longrightarrow> separated xs \<and> separated ys"
  unfolding separated_iff by auto

lemma update_transmitting_coords: "map coords (update_transmitting transm w) = map coords transm"
  by (simp add: update_transmitting_def coords_def)

lemma update_transmitting_cons:
  "update_transmitting (t # ts) w =
     (if matches (xSource w) (ySource w) (coords t) then t\<lparr>power := power t + minPower w\<rparr> else t)
     # update_transmitting ts w"
  by (simp add: update_transmitting_def matches_def coords_def)

lemma update_transmitting_nil: "update_transmitting [] w = []"
  by (simp add: update_transmitting_def)

lemma update_transmitting_none:
  assumes "\<forall>t\<in>set transm. \<not> matches (xSource w) (ySource w) (coords t)"
  shows "update_transmitting transm w = transm"
  using assms by (induction transm) (simp_all add: update_transmitting_cons update_transmitting_nil)

lemma update_transmitting_one:
  assumes "distinct (map coords transm)" "(xSource w, ySource w) \<in> set (map coords transm)"
    "\<forall>t\<in>set transm. matches (xSource w) (ySource w) (coords t) \<longrightarrow> coords t = (xSource w, ySource w)"
  shows "sum_list (map power (update_transmitting transm w)) = sum_list (map power transm) + minPower w"
  using assms
proof (induction transm)
  case Nil
  then show ?case by simp
next
  case (Cons t ts)
  show ?case
  proof (cases "coords t = (xSource w, ySource w)")
    case True
    then have m: "matches (xSource w) (ySource w) (coords t)"
      using matches_self[of "(xSource w, ySource w)"] by simp
    have "(xSource w, ySource w) \<notin> set (map coords ts)" using Cons.prems(1) True by auto
    then have "\<forall>t'\<in>set ts. \<not> matches (xSource w) (ySource w) (coords t')"
      using Cons.prems(3) by auto
    then have "update_transmitting ts w = ts" by (rule update_transmitting_none)
    then show ?thesis using m by (simp add: update_transmitting_cons)
  next
    case False
    then have m: "\<not> matches (xSource w) (ySource w) (coords t)" using Cons.prems(3) by auto
    have "sum_list (map power (update_transmitting ts w)) = sum_list (map power ts) + minPower w"
      using Cons.IH Cons.prems False by auto
    then show ?thesis using m by (simp add: update_transmitting_cons)
  qed
qed

lemma foldl_power: "foldl (\<lambda>acc t. acc + power t) a ts = a + sum_list (map power ts)"
  by (induction ts arbitrary: a) simp_all

lemma totalBroadcastCost_sum: "totalBroadcastCost s = sum_list (map power (transmitting s))"
  by (simp add: totalBroadcastCost_def foldl_power)

lemma round_body_nodes:
  assumes sep: "separated (nodes s)" and r: "round_body s = Inr s'"
  shows "mset (nodes s') = mset (nodes s)
     \<and> sum_list (map power (transmitting s'))
         = sum_list (map power (transmitting s)) + power (last (transmissionPath s'))"
proof -
  from r obtain w where w: "w \<in> set (all_candidates s)"
    and pa: "transmissionPath s' = transmissionPath s @ [\<lparr>tx = xSource w, ty = ySource w, power = minPower w\<rparr>]"
    and tr: "transmitting s' = update_transmitting (transmitting s) w
        @ replicate (skip_count (matches (xSource w) (ySource w)) (nontransmitting s))
            \<lparr>tx = xSource w, ty = ySource w, power = minPower w\<rparr>"
    and nt: "nontransmitting s' = skip_erase (matches (xSource w) (ySource w)) (nontransmitting s)
        @ [(xUncovered w, yUncovered w)]"
    and un: "uncovered s' = skip_erase (matches (xUncovered w) (yUncovered w)) (uncovered s)"
    by (rule round_body_Inr)
  let ?A = "map coords (transmitting s)"
  let ?B = "nontransmitting s"
  let ?C = "uncovered s"
  let ?o = "(xSource w, ySource w)"
  let ?u = "(xUncovered w, yUncovered w)"
  have la: "power (last (transmissionPath s')) = minPower w" by (simp add: pa)
  from sep have D: "distinct (?A @ ?B @ ?C)"
    and U: "\<forall>p\<in>set (?A @ ?B @ ?C). \<forall>q\<in>set (?A @ ?B @ ?C). matches (fst p) (snd p) q \<longrightarrow> p = q"
    unfolding nodes_def separated_iff by simp_all
  from sep have sepB: "separated ?B" and sepC: "separated ?C"
    unfolding nodes_def using separated_append by blast+
  have AB: "set ?A \<inter> set ?B = {}" using D by auto
  have u: "?u \<in> set ?C" using w by (rule all_candidates_target)
  have un': "uncovered s' = remove1 ?u ?C"
    using skip_erase_separated[OF sepC u] by (simp add: un)
  have same: "p = q" if "p \<in> set ?A \<union> set ?B" "q \<in> set ?A \<union> set ?B" "matches (fst p) (snd p) q" for p q
    using U that by auto
  from w show ?thesis
  proof (cases rule: all_candidates_cases)
    case (transmitting t v)
    then have o: "?o = coords t" by (simp add: coords_def)
    have oA: "?o \<in> set ?A" using transmitting(1) o by auto
    have "\<forall>n\<in>set ?B. \<not> matches (xSource w) (ySource w) n"
    proof
      fix n assume n: "n \<in> set ?B"
      show "\<not> matches (xSource w) (ySource w) n"
      proof
        assume "matches (xSource w) (ySource w) n"
        then have "?o = n" using same[of ?o n] oA n by simp
        with oA n AB show False by blast
      qed
    qed
    then have B1: "skip_erase (matches (xSource w) (ySource w)) ?B = ?B"
      and B2: "skip_count (matches (xSource w) (ySource w)) ?B = 0"
      by (simp_all add: skip_erase_none skip_count_none)
    have one: "\<forall>t'\<in>set (transmitting s). matches (xSource w) (ySource w) (coords t') \<longrightarrow> coords t' = ?o"
    proof (intro ballI impI)
      fix t' assume t': "t' \<in> set (transmitting s)" and m: "matches (xSource w) (ySource w) (coords t')"
      have "coords t' \<in> set ?A" using t' by simp
      then have "?o = coords t'" using same[of ?o "coords t'"] oA m by simp
      then show "coords t' = ?o" by simp
    qed
    have dA: "distinct ?A" using D by simp
    have sum: "sum_list (map power (update_transmitting (transmitting s) w))
        = sum_list (map power (transmitting s)) + minPower w"
      using dA oA one by (rule update_transmitting_one)
    have "mset (nodes s') = mset ?A + (mset ?B + {#?u#}) + mset (remove1 ?u ?C)"
      by (simp add: nodes_def tr nt un' B1 B2 update_transmitting_coords)
    also have "\<dots> = mset (nodes s)" using u by (simp add: nodes_def)
    finally show ?thesis using sum by (simp add: tr B2 la)
  next
    case (relay n v)
    then have o: "?o = n" by simp
    have oB: "?o \<in> set ?B" using relay(1) o by simp
    have "\<forall>t'\<in>set (transmitting s). \<not> matches (xSource w) (ySource w) (coords t')"
    proof
      fix t' assume t': "t' \<in> set (transmitting s)"
      show "\<not> matches (xSource w) (ySource w) (coords t')"
      proof
        assume m: "matches (xSource w) (ySource w) (coords t')"
        have c: "coords t' \<in> set ?A" using t' by simp
        then have "?o = coords t'" using same[of ?o "coords t'"] oB m by simp
        with oB c AB show False by auto
      qed
    qed
    then have A1: "update_transmitting (transmitting s) w = transmitting s"
      by (rule update_transmitting_none)
    have B1: "skip_erase (matches (xSource w) (ySource w)) ?B = remove1 ?o ?B"
      using skip_erase_separated[OF sepB oB] by simp
    have B2: "skip_count (matches (xSource w) (ySource w)) ?B = 1"
      using skip_count_separated[OF sepB oB] by simp
    have "mset (nodes s') = (mset ?A + {#?o#}) + (mset (remove1 ?o ?B) + {#?u#}) + mset (remove1 ?u ?C)"
      by (simp add: nodes_def tr nt un' A1 B1 B2 coords_def)
    also have "\<dots> = mset (nodes s)" using u oB by (simp add: nodes_def)
    finally show ?thesis by (simp add: tr A1 B2 la)
  qed
qed

lemma init_state_nodes: "init_state locations = Inr s \<Longrightarrow> nodes s = locations"
proof -
  assume a: "init_state locations = Inr s"
  then have ne: "locations \<noteq> []" by (auto simp: init_state_def split: if_splits)
  from a have "map coords (transmitting s) = [hd locations]" "nontransmitting s = []"
    by (auto simp: init_state_def coords_def hd_conv_nth split: if_splits)
  then show ?thesis using init_state_uncovered[OF a] ne by (simp add: nodes_def)
qed

lemma reachable_nodes:
  assumes "separated locations"
  shows "reachable locations s \<Longrightarrow>
     mset (nodes s) = mset locations
     \<and> sum_list (map power (transmitting s)) = sum_list (map power (transmissionPath s))"
proof (induction rule: reachable.induct)
  case (reachable_init s)
  have "transmitting s = [\<lparr>tx = fst (locations ! 0), ty = snd (locations ! 0), power = 0\<rparr>]"
    and "transmissionPath s = []"
    using reachable_init by (auto simp: init_state_def split: if_splits)
  then show ?case using init_state_nodes[OF reachable_init] by simp
next
  case (reachable_round s s')
  then have m: "mset (nodes s) = mset locations"
    and c: "sum_list (map power (transmitting s)) = sum_list (map power (transmissionPath s))"
    by simp_all
  have sep: "separated (nodes s)" using m[symmetric] assms by (rule separated_mset)
  from reachable_round(3) obtain w :: candidate where
    pa: "transmissionPath s' = transmissionPath s @ [\<lparr>tx = xSource w, ty = ySource w, power = minPower w\<rparr>]"
    by (rule round_body_Inr)
  from round_body_nodes[OF sep reachable_round(3)] m c show ?case by (simp add: pa)
qed

lemma run_bip_Inr_reachable:
  assumes "run_bip locations = Inr s"
  shows "reachable locations s \<and> uncovered s = []"
proof -
  from assms have "0 < length locations"
    by (auto simp: run_bip_def init_state_def split: if_splits)
  from run_bip_reachable[OF this] assms show ?thesis by auto
qed

text \<open>
  When no two input nodes are within the tolerance of each other on both axes, then in
  every state of the run (after the initialisation and after each round) the coordinates
  of the transmitting rows, the covered non-transmitting nodes and the uncovered nodes are
  pairwise disjoint, none is stored twice, and together they are exactly the input nodes.
\<close>

theorem node_sets_partition:
  assumes "separated locations" and "reachable locations s"
  shows "set (map coords (transmitting s)) \<inter> set (nontransmitting s) = {}
     \<and> set (map coords (transmitting s)) \<inter> set (uncovered s) = {}
     \<and> set (nontransmitting s) \<inter> set (uncovered s) = {}
     \<and> set (map coords (transmitting s)) \<union> set (nontransmitting s) \<union> set (uncovered s)
         = set locations
     \<and> distinct (map coords (transmitting s)) \<and> distinct (nontransmitting s) \<and> distinct (uncovered s)"
proof -
  from reachable_nodes[OF assms] have m: "mset (nodes s) = mset locations" by simp
  have "distinct locations" using assms(1) by (rule separated_distinct)
  then have "distinct (nodes s)" using m by (metis mset_eq_imp_distinct_iff)
  moreover have "set (nodes s) = set locations" using m by (rule mset_eq_setD)
  ultimately show ?thesis by (auto simp: nodes_def)
qed

theorem node_sets_partition_witness:
  "separated [(0, 0), (1, 0), (2, 0)]
   \<and> reachable [(0, 0), (1, 0), (2, 0)]
       \<lparr>transmitting = [\<lparr>tx = 0, ty = 0, power = 1\<rparr>], nontransmitting = [(1, 0)],
        uncovered = [(2, 0)], transmissionPath = [\<lparr>tx = 0, ty = 0, power = 1\<rparr>], round = 1\<rparr>
   \<and> set (map coords [\<lparr>tx = 0, ty = 0, power = 1\<rparr>]) \<union> set [(1, 0)] \<union> set [(2, 0)]
       = set [(0, 0), (1, 0), (2, 0) :: point]
   \<and> set (map coords [\<lparr>tx = 0, ty = 0, power = 1\<rparr>]) \<inter> set [(1, 0)] = {}"
proof -
  let ?L = "[(0, 0), (1, 0), (2, 0)] :: point list"
  let ?s0 = "\<lparr>transmitting = [\<lparr>tx = 0, ty = 0, power = 0\<rparr>], nontransmitting = [],
        uncovered = [(1, 0), (2, 0)], transmissionPath = [], round = 0\<rparr>"
  let ?s1 = "\<lparr>transmitting = [\<lparr>tx = 0, ty = 0, power = 1\<rparr>], nontransmitting = [(1, 0)],
        uncovered = [(2, 0)], transmissionPath = [\<lparr>tx = 0, ty = 0, power = 1\<rparr>], round = 1\<rparr>"
  have sep: "separated ?L"
    by (simp add: matches_def doubleEquals_def default_epsilon_def)
  have i: "init_state ?L = Inr ?s0" by (simp add: bip_eval)
  have r1: "round_body ?s0 = Inr ?s1" by (simp add: bip_eval)
  have re: "reachable ?L ?s1"
    by (rule reachable_round[OF reachable_init[OF i] _ r1]) simp
  from node_sets_partition[OF sep re] sep re show ?thesis by simp
qed

text \<open>
  C3. The claim is that at every point of the run the transmitting, the covered
  non-transmitting and the uncovered nodes are pairwise disjoint and together are all
  input nodes. The program breaks it on the input \<open>[(0,0), (3,0), (0,4), (3.00001,0)]\<close>:
  the first round covers \<open>(3,0)\<close>, and lines 169-173 erase \<open>(3.00001,0)\<close> from the uncovered
  vector together with it, while line 165 adds only \<open>(3,0)\<close> to the covered ones. After
  that round \<open>(3.00001,0)\<close> is an input node that is in none of the three vectors.
\<close>

theorem node_sets_partition_counterexample:
  "reachable [(0, 0), (3, 0), (0, 4), (300001 / 100000, 0)]
       \<lparr>transmitting = [\<lparr>tx = 0, ty = 0, power = 9\<rparr>], nontransmitting = [(3, 0)],
        uncovered = [(0, 4)], transmissionPath = [\<lparr>tx = 0, ty = 0, power = 9\<rparr>], round = 1\<rparr>
   \<and> (300001 / 100000, 0) \<in> set [(0, 0), (3, 0), (0, 4), (300001 / 100000, 0 :: real)]
   \<and> (300001 / 100000, 0) \<notin>
       set (map coords [\<lparr>tx = 0, ty = 0, power = 9\<rparr>]) \<union> set [(3, 0)] \<union> set [(0, 4)]"
proof -
  let ?L = "[(0, 0), (3, 0), (0, 4), (300001 / 100000, 0)] :: point list"
  let ?s0 = "\<lparr>transmitting = [\<lparr>tx = 0, ty = 0, power = 0\<rparr>], nontransmitting = [],
        uncovered = [(3, 0), (0, 4), (300001 / 100000, 0)], transmissionPath = [], round = 0\<rparr>"
  let ?s1 = "\<lparr>transmitting = [\<lparr>tx = 0, ty = 0, power = 9\<rparr>], nontransmitting = [(3, 0)],
        uncovered = [(0, 4)], transmissionPath = [\<lparr>tx = 0, ty = 0, power = 9\<rparr>], round = 1\<rparr>"
  have i: "init_state ?L = Inr ?s0" by (simp add: bip_eval)
  have r1: "round_body ?s0 = Inr ?s1" by (simp add: bip_eval power2_eq_square)
  have re: "reachable ?L ?s1"
    by (rule reachable_round[OF reachable_init[OF i] _ r1]) simp
  then show ?thesis by (simp add: coords_def)
qed

text \<open>
  In exact arithmetic, when no two input nodes are within the tolerance of each other on
  both axes, the sum of the final powers of the transmitting rows equals the sum of the
  power increments in the transmission path.
\<close>

theorem total_cost_is_path_sum:
  assumes "separated locations" and "run_bip locations = Inr s"
  shows "totalBroadcastCost s = sum_list (map power (transmissionPath s))"
proof -
  from assms(2) have "reachable locations s" using run_bip_Inr_reachable by blast
  from reachable_nodes[OF assms(1) this] show ?thesis by (simp add: totalBroadcastCost_sum)
qed

theorem total_cost_is_path_sum_witness:
  "separated [(0, 0), (1, 0), (2, 0)]
   \<and> run_bip [(0, 0), (1, 0), (2, 0)]
       = Inr \<lparr>transmitting = [\<lparr>tx = 0, ty = 0, power = 1\<rparr>, \<lparr>tx = 1, ty = 0, power = 1\<rparr>],
             nontransmitting = [(2, 0)], uncovered = [],
             transmissionPath = [\<lparr>tx = 0, ty = 0, power = 1\<rparr>, \<lparr>tx = 1, ty = 0, power = 1\<rparr>],
             round = 2\<rparr>
   \<and> totalBroadcastCost \<lparr>transmitting = [\<lparr>tx = 0, ty = 0, power = 1\<rparr>, \<lparr>tx = 1, ty = 0, power = 1\<rparr>],
             nontransmitting = [(2, 0)], uncovered = [],
             transmissionPath = [\<lparr>tx = 0, ty = 0, power = 1\<rparr>, \<lparr>tx = 1, ty = 0, power = 1\<rparr>],
             round = 2\<rparr> = 2"
proof -
  let ?L = "[(0, 0), (1, 0), (2, 0)] :: point list"
  let ?s = "\<lparr>transmitting = [\<lparr>tx = 0, ty = 0, power = 1\<rparr>, \<lparr>tx = 1, ty = 0, power = 1\<rparr>],
             nontransmitting = [(2, 0)], uncovered = [],
             transmissionPath = [\<lparr>tx = 0, ty = 0, power = 1\<rparr>, \<lparr>tx = 1, ty = 0, power = 1\<rparr>],
             round = 2\<rparr>"
  have sep: "separated ?L"
    by (simp add: matches_def doubleEquals_def default_epsilon_def)
  have run: "run_bip ?L = Inr ?s" by (simp add: bip_eval)
  from total_cost_is_path_sum[OF sep run] have "totalBroadcastCost ?s = 2" by simp
  with sep run show ?thesis by simp
qed

text \<open>
  C9. The claim is that at termination the total broadcast cost equals the sum of the
  power increments in the transmission path, every winning cost being either added to an
  existing transmitting node or the first power of a newly promoted one. On the input
  \<open>[(0,0), (0.00009,0), (-1,0)]\<close> the program does both with one cost: the second round
  adds it to the source (lines 146-151) and also promotes the relay \<open>(0.00009,0)\<close> with it,
  as a second row \<open>(0,0)\<close> (lines 155-162). The total is 1.9999999919 and the path sums
  to 1.
\<close>

theorem total_cost_counterexample:
  "run_bip [(0, 0), (9 / 100000, 0), (- 1, 0)]
       = Inr \<lparr>transmitting = [\<lparr>tx = 0, ty = 0, power = 1\<rparr>,
                               \<lparr>tx = 0, ty = 0, power = 9999999919 / 10000000000\<rparr>],
             nontransmitting = [(- 1, 0)], uncovered = [],
             transmissionPath = [\<lparr>tx = 0, ty = 0, power = 81 / 10000000000\<rparr>,
                                 \<lparr>tx = 0, ty = 0, power = 9999999919 / 10000000000\<rparr>],
             round = 2\<rparr>
   \<and> totalBroadcastCost \<lparr>transmitting = [\<lparr>tx = 0, ty = 0, power = 1\<rparr>,
                               \<lparr>tx = 0, ty = 0, power = 9999999919 / 10000000000\<rparr>],
             nontransmitting = [(- 1, 0)], uncovered = [],
             transmissionPath = [\<lparr>tx = 0, ty = 0, power = 81 / 10000000000\<rparr>,
                                 \<lparr>tx = 0, ty = 0, power = 9999999919 / 10000000000\<rparr>],
             round = 2\<rparr> = 19999999919 / 10000000000
   \<and> sum_list (map power [\<lparr>tx = 0, ty = 0, power = 81 / 10000000000\<rparr>,
                                 \<lparr>tx = 0, ty = 0, power = 9999999919 / 10000000000 :: real\<rparr>]) = 1"
  by (simp add: bip_eval power2_eq_square)

section \<open>The program runs the algorithm\<close>

text \<open>
  The state the loop ends in does not depend on how numbers are printed, so what is proved
  of \<open>run_bip\<close> holds of the state \<open>main\<close> reports.
\<close>

lemma bip_loop_state:
  "(case bip_loop shd shi s out of Inl e \<Rightarrow> Inl e | Inr r \<Rightarrow> Inr (fst r))
     = (case bip_loop shd' shi' s out' of Inl e \<Rightarrow> Inl e | Inr r \<Rightarrow> Inr (fst r))"
proof (induction shd shi s out arbitrary: out' rule: bip_loop.induct)
  case (1 shd shi s out)
  show ?case
  proof (cases "0 < length (uncovered s)")
    case False
    then show ?thesis
      by (subst bip_loop.simps, subst (2) bip_loop.simps) simp
  next
    case True
    show ?thesis
    proof (cases "round_body s")
      case (Inl e)
      then show ?thesis using True
        by (subst bip_loop.simps, subst (2) bip_loop.simps) simp
    next
      case (Inr s1)
      from 1[OF True Inr, of "out' @ round_report shd' shi' s1"] show ?thesis using True Inr
        by (subst bip_loop.simps, subst (2) bip_loop.simps) simp
    qed
  qed
qed

lemma main_runs_bip:
  assumes "int (length argv) = 2" "load_locations stod (fs (argv ! 1)) = Inr locations"
    "run_bip locations = Inr s"
  shows "\<exists>out. main stod shd shi fs argv = Inr (out @ final_report shd shi s, 0)"
proof -
  from assms(3) obtain s0 where s0: "init_state locations = Inr s0"
    by (auto simp: run_bip_def split: sum.splits)
  from assms(3) s0 have "(case bip_loop (\<lambda>_. []) (\<lambda>_. []) s0 [] of Inl e \<Rightarrow> Inl e | Inr r \<Rightarrow> Inr (fst r)) = Inr s"
    by (auto simp: run_bip_def split: sum.splits)
  then have "(case bip_loop shd shi s0 [] of Inl e \<Rightarrow> Inl e | Inr r \<Rightarrow> Inr (fst r)) = Inr s"
    using bip_loop_state[of shd shi s0 "[]" "\<lambda>_. []" "\<lambda>_. []" "[]"] by simp
  then obtain out where "bip_loop shd shi s0 [] = Inr (s, out)"
    by (cases "bip_loop shd shi s0 []") auto
  then show ?thesis using assms(1,2) s0 by (simp add: main_def)
qed

section \<open>Binary64 arithmetic\<close>

text \<open>
  The program computes in \<^verbatim>\<open>double\<close>. \<open>fl64\<close> is the rounding of IEEE 754 binary64
  in its default mode (to nearest, ties to even) with the exponent left unbounded: overflow
  to infinity and the subnormal numbers are not modelled. Every arithmetic operation of the
  program returns \<open>fl64\<close> of the exact result; \<^verbatim>\<open>pow(x, 2)\<close> is taken to return the
  rounded square, as \<^verbatim>\<open>x * x\<close> does, and \<^verbatim>\<open>std::stod\<close> the rounded value of the decimal
  it reads.
\<close>

text \<open>
  Rounding to the nearest integer, a tie going to the even one.
\<close>

definition round_half_even :: "real \<Rightarrow> int" where
  "round_half_even r =
     (let f = \<lfloor>r\<rfloor> in
      if r - of_int f < 1 / 2 then f
      else if 1 / 2 < r - of_int f then f + 1
      else if even f then f else f + 1)"

text \<open>
  The binary exponent \<open>e\<close> of a positive real, \<open>2^e \<le> a < 2^(e+1)\<close>, found from the integer
  part of \<open>a\<close> (or of \<open>1 / a\<close> below 1) by halving.
\<close>

fun log2floor :: "nat \<Rightarrow> nat" where
  "log2floor n = (if n < 2 then 0 else Suc (log2floor (n div 2)))"

declare log2floor.simps [simp del]

definition exponent :: "real \<Rightarrow> int" where
  "exponent a =
     (if 1 \<le> a then int (log2floor (nat \<lfloor>a\<rfloor>))
      else - int (Suc (log2floor (nat (\<lceil>1 / a\<rceil> - 1)))))"

definition pow2 :: "int \<Rightarrow> real" where
  "pow2 k = (if 0 \<le> k then 2 ^ nat k else 1 / 2 ^ nat (- k))"

text \<open>
  The nearest number with a significand of 53 bits: the unit in the last place of \<open>x\<close> is
  \<open>2^(e - 52)\<close>, and \<open>x\<close> is rounded to a multiple of it.
\<close>

definition fl64 :: "real \<Rightarrow> real" where
  "fl64 x =
     (if x = 0 then 0
      else (let u = pow2 (exponent \<bar>x\<bar> - 52) in of_int (round_half_even (x / u)) * u))"

lemma log2floor_bounds: "0 < n \<Longrightarrow> 2 ^ log2floor n \<le> n \<and> n < 2 ^ Suc (log2floor n)"
proof (induction n rule: log2floor.induct)
  case (1 n)
  show ?case
  proof (cases "n < 2")
    case True
    with 1(2) have "n = 1" by simp
    then show ?thesis by (simp add: log2floor.simps)
  next
    case False
    then have h: "0 < n div 2" by simp
    from 1(1)[OF False h] have a: "2 ^ log2floor (n div 2) \<le> n div 2"
      and b: "n div 2 < 2 ^ Suc (log2floor (n div 2))" by simp_all
    have l: "log2floor n = Suc (log2floor (n div 2))"
      using False by (subst log2floor.simps) simp
    from a have "2 * 2 ^ log2floor (n div 2) \<le> n" by simp
    moreover from b have "n < 2 * 2 ^ Suc (log2floor (n div 2))" by simp
    ultimately show ?thesis by (simp add: l)
  qed
qed

lemma pow2_pos: "0 < pow2 k"
  by (simp add: pow2_def)

lemma exponent_bounds:
  assumes "0 < a"
  shows "pow2 (exponent a) \<le> a \<and> a < pow2 (exponent a + 1)"
proof (cases "1 \<le> a")
  case True
  let ?n = "nat \<lfloor>a\<rfloor>"
  have n: "0 < ?n" using True by simp
  have e: "exponent a = int (log2floor ?n)" using True by (simp add: exponent_def)
  from log2floor_bounds[OF n] have lo: "2 ^ log2floor ?n \<le> ?n" and hi: "?n < 2 ^ Suc (log2floor ?n)"
    by simp_all
  have r: "real (2 ^ log2floor ?n) = 2 ^ log2floor ?n" by simp
  have "real ?n \<le> a" using True by simp
  moreover have "real (2 ^ log2floor ?n) \<le> real ?n" using lo by (rule iffD2[OF of_nat_le_iff])
  ultimately have "real (2 ^ log2floor ?n) \<le> a" by linarith
  then have 1: "2 ^ log2floor ?n \<le> a" by (simp only: r)
  have r': "real (2 ^ Suc (log2floor ?n)) = 2 ^ Suc (log2floor ?n)" by simp
  have "a < real ?n + 1" using True by linarith
  moreover have "real ?n + 1 \<le> real (2 ^ Suc (log2floor ?n))"
    using hi by (metis Suc_leI of_nat_Suc of_nat_le_iff add.commute)
  ultimately have "a < real (2 ^ Suc (log2floor ?n))" by linarith
  then have 2: "a < 2 ^ Suc (log2floor ?n)" by (simp only: r')
  from 1 2 show ?thesis by (simp add: e pow2_def nat_add_distrib)
next
  case False
  let ?y = "1 / a"
  let ?n = "nat (\<lceil>?y\<rceil> - 1)"
  let ?m = "Suc (log2floor ?n)"
  have y: "1 < ?y" using False assms by simp
  then have c: "2 \<le> \<lceil>?y\<rceil>" by linarith
  then have n: "0 < ?n" by simp
  have e: "exponent a = - int ?m" using False by (simp add: exponent_def)
  from log2floor_bounds[OF n] have lo: "2 ^ log2floor ?n \<le> ?n" and hi: "?n < 2 ^ ?m"
    by simp_all
  have c1: "0 \<le> \<lceil>?y\<rceil> - 1" using c by linarith
  have "real ?n = of_int (\<lceil>?y\<rceil> - 1)" using c1 by (rule of_nat_nat)
  then have rn: "real ?n = of_int \<lceil>?y\<rceil> - 1" by (simp only: of_int_diff of_int_1)
  have r1: "real (2 ^ log2floor ?n) = 2 ^ log2floor ?n" by simp
  have r2: "real (2 ^ ?m) = 2 ^ ?m" by simp
  have "real ?n < ?y" unfolding rn by linarith
  moreover have "real (2 ^ log2floor ?n) \<le> real ?n" using lo by (rule iffD2[OF of_nat_le_iff])
  ultimately have "real (2 ^ log2floor ?n) < ?y" by linarith
  then have 1: "2 ^ log2floor ?n < ?y" by (simp only: r1)
  have "real ?n + 1 \<le> real (2 ^ ?m)"
    using hi by (metis Suc_leI of_nat_Suc of_nat_le_iff add.commute)
  moreover have "?y \<le> real ?n + 1" unfolding rn by linarith
  ultimately have "?y \<le> real (2 ^ ?m)" by linarith
  then have 2: "?y \<le> 2 ^ ?m" by (simp only: r2)
  from 2 assms have lower: "1 / 2 ^ ?m \<le> a"
    by (simp add: field_simps)
  from 1 assms have upper: "a < 1 / 2 ^ log2floor ?n"
    by (simp add: field_simps)
  have p1: "pow2 (exponent a) = 1 / 2 ^ ?m" by (simp add: e pow2_def nat_add_distrib)
  have p2: "pow2 (exponent a + 1) = 1 / 2 ^ log2floor ?n"
    by (cases "log2floor ?n") (simp_all add: e pow2_def nat_add_distrib)
  from lower upper show ?thesis by (simp only: p1 p2)
qed

lemma round_half_even_nearest: "\<bar>of_int (round_half_even r) - r\<bar> \<le> 1 / 2"
  unfolding round_half_even_def Let_def by (auto simp: abs_if not_less) linarith+

lemma fl64_nearest:
  assumes "x \<noteq> 0"
  shows "\<exists>k::int. fl64 x = of_int k * pow2 (exponent \<bar>x\<bar> - 52)
     \<and> \<bar>fl64 x - x\<bar> \<le> pow2 (exponent \<bar>x\<bar> - 52) / 2"
proof -
  let ?u = "pow2 (exponent \<bar>x\<bar> - 52)"
  let ?k = "round_half_even (x / ?u)"
  have u: "0 < ?u" by (rule pow2_pos)
  have f: "fl64 x = of_int ?k * ?u" using assms by (simp add: fl64_def Let_def)
  have "\<bar>of_int ?k - x / ?u\<bar> \<le> 1 / 2" by (rule round_half_even_nearest)
  then have "\<bar>of_int ?k - x / ?u\<bar> * ?u \<le> 1 / 2 * ?u"
    using u by (intro mult_right_mono) simp_all
  moreover have "\<bar>of_int ?k - x / ?u\<bar> * ?u = \<bar>of_int ?k * ?u - x\<bar>"
  proof -
    have "(of_int ?k - x / ?u) * ?u = of_int ?k * ?u - x"
      using u by (simp add: field_simps)
    then have "\<bar>of_int ?k * ?u - x\<bar> = \<bar>of_int ?k - x / ?u\<bar> * \<bar>?u\<bar>"
      by (metis abs_mult)
    then show ?thesis using u by simp
  qed
  ultimately have "\<bar>of_int ?k * ?u - x\<bar> \<le> ?u / 2" by simp
  then show ?thesis using f by auto
qed

text \<open>Evaluation of \<open>fl64\<close> on numerals.\<close>

lemmas log2floor_eval = log2floor.simps[of 0] log2floor.simps[of "Suc 0"]
  log2floor.simps[of "numeral n" for n]

lemmas fl64_eval = fl64_def[of 0] fl64_def[of 1] fl64_def[of "numeral a" for a]
  fl64_def[of "- numeral a" for a] fl64_def[of "numeral a / numeral b" for a b]
  fl64_def[of "- (numeral a / numeral b)" for a b] fl64_def[of "1 / numeral b" for b]
  fl64_def[of "- (1 / numeral b)" for b]
  round_half_even_def exponent_def pow2_def log2floor_eval Let_def power2_eq_square

lemma fl64_examples:
  "fl64 (1 / 10) = 3602879701896397 / 36028797018963968"
  "fl64 (1 / 10000) = 7378697629483821 / 73786976294838206464"
  "fl64 (17 / 10) = 7656119366529843 / 4503599627370496"
  "fl64 3 = 3"
  "fl64 9007199254740993 = 9007199254740992"
  "fl64 9007199254740995 = 9007199254740996"
  "fl64 (- (17 / 10)) = - fl64 (17 / 10)"
  by (simp_all add: fl64_eval)

section \<open>One round with every operation rounded\<close>

text \<open>
  The numeric steps of the loop body once more, with a rounding \<open>rnd\<close> applied to the
  result of every floating-point operation of the source. With no rounding they are the
  definitions above; with \<open>fl64\<close> they are the program in binary64.
\<close>

text \<open>Lines 21-24; the literal \<^verbatim>\<open>0.0001\<close> is itself a rounded number.\<close>

definition doubleEquals_fl :: "(real \<Rightarrow> real) \<Rightarrow> real \<Rightarrow> real \<Rightarrow> real \<Rightarrow> bool" where
  "doubleEquals_fl rnd x1 x2 epsilon = (\<bar>rnd (x1 - x2)\<bar> < epsilon)"

definition default_epsilon_fl :: "(real \<Rightarrow> real) \<Rightarrow> real" where
  "default_epsilon_fl rnd = rnd (1 / 10000)"

text \<open>Lines 109 and 124.\<close>

definition powerToReachUncoveredNode_fl :: "(real \<Rightarrow> real) \<Rightarrow> real \<Rightarrow> real \<Rightarrow> real \<Rightarrow> real \<Rightarrow> real" where
  "powerToReachUncoveredNode_fl rnd x1 y1 x2 y2 =
     rnd (rnd ((rnd (x1 - x2))\<^sup>2) + rnd ((rnd (y1 - y2))\<^sup>2))"

text \<open>Lines 99-114, with line 110 rounding the difference.\<close>

definition candidates_transmitting_fl :: "(real \<Rightarrow> real) \<Rightarrow> tnode list \<Rightarrow> point list \<Rightarrow> candidate list" where
  "candidates_transmitting_fl rnd transm unc =
     concat (map (\<lambda>t. map (\<lambda>u.
        \<lparr>minPower = rnd (powerToReachUncoveredNode_fl rnd (tx t) (ty t) (fst u) (snd u) - power t),
         xSource = tx t, ySource = ty t, xUncovered = fst u, yUncovered = snd u\<rparr>) unc) transm)"

text \<open>Lines 118-127.\<close>

definition candidates_nontransmitting_fl :: "(real \<Rightarrow> real) \<Rightarrow> point list \<Rightarrow> point list \<Rightarrow> candidate list" where
  "candidates_nontransmitting_fl rnd nontrans unc =
     concat (map (\<lambda>n. map (\<lambda>u.
        \<lparr>minPower = powerToReachUncoveredNode_fl rnd (fst n) (snd n) (fst u) (snd u),
         xSource = fst n, ySource = snd n, xUncovered = fst u, yUncovered = snd u\<rparr>) unc) nontrans)"

text \<open>Lines 146-151, with line 149 rounding the sum.\<close>

definition update_transmitting_fl :: "(real \<Rightarrow> real) \<Rightarrow> tnode list \<Rightarrow> candidate \<Rightarrow> tnode list" where
  "update_transmitting_fl rnd transm w =
     map (\<lambda>t. if doubleEquals_fl rnd (tx t) (xSource w) (default_epsilon_fl rnd)
                 \<and> doubleEquals_fl rnd (ty t) (ySource w) (default_epsilon_fl rnd)
               then t\<lparr>power := rnd (power t + minPower w)\<rparr> else t) transm"

text \<open>Lines 155-162 and 169-173.\<close>

function promote_loop_fl ::
  "(real \<Rightarrow> real) \<Rightarrow> nat \<Rightarrow> point list \<Rightarrow> tnode list \<Rightarrow> candidate \<Rightarrow> point list \<times> tnode list" where
  "promote_loop_fl rnd i nontrans transm w =
     (if i < length nontrans then
        (if doubleEquals_fl rnd (fst (nontrans ! i)) (xSource w) (default_epsilon_fl rnd)
            \<and> doubleEquals_fl rnd (snd (nontrans ! i)) (ySource w) (default_epsilon_fl rnd)
         then promote_loop_fl rnd (i + 1) (erase nontrans i)
                (transm @ [\<lparr>tx = xSource w, ty = ySource w, power = minPower w\<rparr>]) w
         else promote_loop_fl rnd (i + 1) nontrans transm w)
      else (nontrans, transm))"
  by pat_completeness auto
termination
  by (relation "measure (\<lambda>(rnd, i, nontrans, transm, w). length nontrans - i)")
     (auto simp: erase_def)

function remove_uncovered_fl :: "(real \<Rightarrow> real) \<Rightarrow> nat \<Rightarrow> point list \<Rightarrow> candidate \<Rightarrow> point list" where
  "remove_uncovered_fl rnd i unc w =
     (if i < length unc then
        (if doubleEquals_fl rnd (fst (unc ! i)) (xUncovered w) (default_epsilon_fl rnd)
            \<and> doubleEquals_fl rnd (snd (unc ! i)) (yUncovered w) (default_epsilon_fl rnd)
         then remove_uncovered_fl rnd (i + 1) (erase unc i) w
         else remove_uncovered_fl rnd (i + 1) unc w)
      else unc)"
  by pat_completeness auto
termination
  by (relation "measure (\<lambda>(rnd, i, unc, w). length unc - i)") (auto simp: erase_def)

declare promote_loop_fl.simps [simp del] remove_uncovered_fl.simps [simp del]

definition all_candidates_fl :: "(real \<Rightarrow> real) \<Rightarrow> bip_state \<Rightarrow> candidate list" where
  "all_candidates_fl rnd s =
     candidates_transmitting_fl rnd (transmitting s) (uncovered s)
     @ candidates_nontransmitting_fl rnd (nontransmitting s) (uncovered s)"

text \<open>The body of the loop, lines 78-175.\<close>

definition round_body_fl :: "(real \<Rightarrow> real) \<Rightarrow> bip_state \<Rightarrow> error + bip_state" where
  "round_body_fl rnd s =
     (let minPowersForAllNodes = all_candidates_fl rnd s;
          temp = map minPower minPowersForAllNodes;
          indexMin = min_element temp
      in if indexMin < length minPowersForAllNodes then
           (let w = minPowersForAllNodes ! indexMin;
                path = transmissionPath s @ [\<lparr>tx = xSource w, ty = ySource w, power = minPower w\<rparr>];
                trans1 = update_transmitting_fl rnd (transmitting s) w;
                (nontrans2, trans2) = promote_loop_fl rnd 0 (nontransmitting s) trans1 w;
                nontrans3 = nontrans2 @ [(xUncovered w, yUncovered w)];
                unc = remove_uncovered_fl rnd 0 (uncovered s) w
            in Inr \<lparr>transmitting = trans2, nontransmitting = nontrans3, uncovered = unc,
                    transmissionPath = path, round = round s + 1\<rparr>)
         else Inl OutOfBounds)"

text \<open>Lines 195-201.\<close>

definition totalBroadcastCost_fl :: "(real \<Rightarrow> real) \<Rightarrow> bip_state \<Rightarrow> real" where
  "totalBroadcastCost_fl rnd s = foldl (\<lambda>acc t. rnd (acc + power t)) 0 (transmitting s)"

lemma doubleEquals_fl_exact:
  "doubleEquals_fl (\<lambda>x. x) x1 x2 (default_epsilon_fl (\<lambda>x. x)) = doubleEquals x1 x2 default_epsilon"
  by (simp add: doubleEquals_fl_def default_epsilon_fl_def doubleEquals_def default_epsilon_def)

lemma promote_loop_fl_exact: "promote_loop_fl (\<lambda>x. x) i nontrans transm w = promote_loop i nontrans transm w"
proof (induction i nontrans transm w rule: promote_loop.induct)
  case (1 i nontrans transm w)
  show ?case
  proof (cases "i < length nontrans")
    case False
    then show ?thesis
      by (subst promote_loop_fl.simps, subst promote_loop.simps) simp
  next
    case True
    show ?thesis
    proof (cases "doubleEquals (fst (nontrans ! i)) (xSource w) default_epsilon
            \<and> doubleEquals (snd (nontrans ! i)) (ySource w) default_epsilon")
      case m: True
      from 1(1)[OF True m] show ?thesis using True m
        by (subst promote_loop_fl.simps, subst promote_loop.simps)
           (simp add: doubleEquals_fl_exact)
    next
      case m: False
      from 1(2)[OF True m] show ?thesis using True m
        by (subst promote_loop_fl.simps, subst promote_loop.simps)
           (auto simp: doubleEquals_fl_exact)
    qed
  qed
qed

lemma remove_uncovered_fl_exact: "remove_uncovered_fl (\<lambda>x. x) i unc w = remove_uncovered i unc w"
proof (induction i unc w rule: remove_uncovered.induct)
  case (1 i unc w)
  show ?case
  proof (cases "i < length unc")
    case False
    then show ?thesis
      by (subst remove_uncovered_fl.simps, subst remove_uncovered.simps) simp
  next
    case True
    show ?thesis
    proof (cases "doubleEquals (fst (unc ! i)) (xUncovered w) default_epsilon
            \<and> doubleEquals (snd (unc ! i)) (yUncovered w) default_epsilon")
      case m: True
      from 1(1)[OF True m] show ?thesis using True m
        by (subst remove_uncovered_fl.simps, subst remove_uncovered.simps)
           (simp add: doubleEquals_fl_exact)
    next
      case m: False
      from 1(2)[OF True m] show ?thesis using True m
        by (subst remove_uncovered_fl.simps, subst remove_uncovered.simps)
           (auto simp: doubleEquals_fl_exact)
    qed
  qed
qed

lemma all_candidates_fl_exact: "all_candidates_fl (\<lambda>x. x) s = all_candidates s"
  by (simp add: all_candidates_fl_def all_candidates_def
      candidates_transmitting_fl_def candidates_transmitting_def
      candidates_nontransmitting_fl_def candidates_nontransmitting_def
      powerToReachUncoveredNode_fl_def)

lemma update_transmitting_fl_exact: "update_transmitting_fl (\<lambda>x. x) transm w = update_transmitting transm w"
  by (simp add: update_transmitting_fl_def update_transmitting_def doubleEquals_fl_exact)

lemma round_body_fl_exact: "round_body_fl (\<lambda>x. x) s = round_body s"
  unfolding round_body_fl_def round_body_def all_candidates_fl_exact update_transmitting_fl_exact
    promote_loop_fl_exact remove_uncovered_fl_exact ..

lemma totalBroadcastCost_fl_exact: "totalBroadcastCost_fl (\<lambda>x. x) s = totalBroadcastCost s"
  by (simp add: totalBroadcastCost_fl_def totalBroadcastCost_def)

text \<open>The equations that run a rounded round on given numbers.\<close>

lemmas bip_eval_fl = init_state_def round_body_fl_def all_candidates_fl_def
  candidates_transmitting_fl_def candidates_nontransmitting_fl_def min_element_def
  powerToReachUncoveredNode_fl_def update_transmitting_fl_def doubleEquals_fl_def
  default_epsilon_fl_def erase_def promote_loop_fl.simps remove_uncovered_fl.simps upt_rec
  totalBroadcastCost_fl_def fl64_eval

section \<open>A stored power that decreases\<close>

text \<open>
  The doubles read from \<^verbatim>\<open>1.7\<close> and \<^verbatim>\<open>0.8\<close>, and the states of the run on the file
  \<^verbatim>\<open>(0,0)\<close>, \<^verbatim>\<open>(2.0,1.7)\<close>, \<^verbatim>\<open>(-0.5,0.8)\<close>, \<^verbatim>\<open>(-2.0,-1.7)\<close>.
\<close>

abbreviation d17 :: real where "d17 \<equiv> 7656119366529843 / 4503599627370496"
abbreviation d08 :: real where "d08 \<equiv> 3602879701896397 / 4503599627370496"

abbreviation tie_s0 :: bip_state where
  "tie_s0 \<equiv> \<lparr>transmitting = [\<lparr>tx = 0, ty = 0, power = 0\<rparr>], nontransmitting = [],
     uncovered = [(2, d17), (- (1 / 2), d08), (- 2, - d17)], transmissionPath = [], round = 0\<rparr>"

abbreviation tie_s1 :: bip_state where
  "tie_s1 \<equiv> \<lparr>transmitting = [\<lparr>tx = 0, ty = 0, power = 2004101834179871 / 2251799813685248\<rparr>],
     nontransmitting = [(- (1 / 2), d08)], uncovered = [(2, d17), (- 2, - d17)],
     transmissionPath = [\<lparr>tx = 0, ty = 0, power = 2004101834179871 / 2251799813685248\<rparr>],
     round = 1\<rparr>"

abbreviation tie_s2 :: bip_state where
  "tie_s2 \<equiv> \<lparr>transmitting = [\<lparr>tx = 0, ty = 0, power = 484840647384105 / 70368744177664\<rparr>],
     nontransmitting = [(- (1 / 2), d08), (2, d17)], uncovered = [(- 2, - d17)],
     transmissionPath = [\<lparr>tx = 0, ty = 0, power = 2004101834179871 / 2251799813685248\<rparr>,
                         \<lparr>tx = 0, ty = 0, power = 6\<rparr>],
     round = 2\<rparr>"

abbreviation tie_s3 :: bip_state where
  "tie_s3 \<equiv> \<lparr>transmitting = [\<lparr>tx = 0, ty = 0, power = 7757450358145679 / 1125899906842624\<rparr>],
     nontransmitting = [(- (1 / 2), d08), (2, d17), (- 2, - d17)], uncovered = [],
     transmissionPath = [\<lparr>tx = 0, ty = 0, power = 2004101834179871 / 2251799813685248\<rparr>,
                         \<lparr>tx = 0, ty = 0, power = 6\<rparr>,
                         \<lparr>tx = 0, ty = 0, power = - (1 / 1125899906842624)\<rparr>],
     round = 3\<rparr>"

text \<open>
  C1. The claim is that no update ever decreases the power stored for a transmitting node.
  In binary64 the program decreases one on the input above. The two far nodes are at the
  same squared distance 6.89 from the source. Round 2 reaches the first of them at the
  rounded cost 6.0, and \<open>0.8900000000000001 + 6.0\<close> rounds to 6.890000000000001, above 6.89.
  Round 3 then has the winning cost \<open>6.89 - 6.890000000000001 = - 2^-50\<close>, negative, and
  line 149 lowers the power of the source from 6.890000000000001 to 6.89.
\<close>

theorem power_decreases_on_tie:
  "init_state [(0, 0), (2, fl64 (17 / 10)), (- (1 / 2), fl64 (8 / 10)), (- 2, fl64 (- (17 / 10)))]
     = Inr tie_s0
   \<and> round_body_fl fl64 tie_s0 = Inr tie_s1
   \<and> round_body_fl fl64 tie_s1 = Inr tie_s2
   \<and> round_body_fl fl64 tie_s2 = Inr tie_s3
   \<and> power (last (transmissionPath tie_s3)) < 0
   \<and> power (transmitting tie_s3 ! 0) < power (transmitting tie_s2 ! 0)"
  by (simp add: bip_eval_fl)

text \<open>
  On that run the total of lines 195-201 and the exact sum of the increments in the
  transmission path also differ, by rounding alone.
\<close>

lemma total_and_path_sum_differ_by_rounding:
  "totalBroadcastCost_fl fl64 tie_s3 = 7757450358145679 / 1125899906842624
   \<and> sum_list (map power (transmissionPath tie_s3)) = 15514900716291357 / 2251799813685248"
  by (simp add: totalBroadcastCost_fl_def fl64_eval)

end
